theory Spec2Isabelle
  imports Main "HOL-Library.Word"
begin

section \<open>The paged data cache of qsfs (src/data/Cache.cpp)\<close>

text \<open>
  \<open>Cache.cpp\<close> keeps a \<open>std::list\<close> of (file id, \<open>shared_ptr<File>\<close>) pairs, most
  recently used first, and a map from file id to list iterator.  A list iterator is the
  address of a list node: it stays valid while the node is spliced and is what the map
  stores.  The model therefore gives every list node an address (a natural number, taken
  from a counter at \<open>push_front\<close>), keeps the list as a list of (address, key, File
  pointer) and the map as a partial function from keys to addresses.

  \<open>size_t\<close>, \<open>uint64_t\<close> and \<open>off_t\<close> are 64-bit words, so that \<open>+=\<close> and \<open>-=\<close> on the
  size counter wrap as in the source.  A \<open>shared_ptr<File>\<close> may be null: the File
  pointer of a node is a \<open>File option\<close>.  Dereferencing a null pointer or an iterator
  whose node is gone is undefined behaviour in the source; an operation that does so
  returns \<open>None\<close> in the model.  The \<open>assert\<close>s of the source are compiled out
  (release build); the explicit checks that follow them are modelled.
\<close>

type_synonym byte = "8 word"
type_synonym size_t = "64 word"

subsection \<open>Page and File\<close>

text \<open>
  \<open>File.cpp\<close> and \<open>Page.cpp\<close> are not part of the sources at hand.  The definitions of
  this subsection are modelled from the specification (sections 3, 4.1 and 4.2).
\<close>

text \<open>Modelled from the spec: the body of a Page (Page.cpp is missing).  The scratch
  region of a disk page is represented by the bytes it holds.\<close>

datatype body = InMemory "byte list" | OnDisk "byte list"

fun body_bytes :: "body \<Rightarrow> byte list" where
  "body_bytes (InMemory bs) = bs"
| "body_bytes (OnDisk bs) = bs"

fun body_in_memory :: "body \<Rightarrow> bool" where
  "body_in_memory (InMemory bs) = True"
| "body_in_memory (OnDisk bs) = False"

fun body_update :: "(byte list \<Rightarrow> byte list) \<Rightarrow> body \<Rightarrow> body" where
  "body_update g (InMemory bs) = InMemory (g bs)"
| "body_update g (OnDisk bs) = OnDisk (g bs)"

text \<open>Modelled from the spec: a Page is an offset within its File and a body; its size is
  the length of the body (Page.cpp is missing).\<close>

datatype page = Page (p_offset: nat) (p_body: body)

definition page_size :: "page \<Rightarrow> nat" where
  "page_size p = length (body_bytes (p_body p))"

definition page_end :: "page \<Rightarrow> nat" where
  "page_end p = p_offset p + page_size p"

definition page_in_memory :: "page \<Rightarrow> bool" where
  "page_in_memory p = body_in_memory (p_body p)"

text \<open>Modelled from the spec: the fields of a File (File.cpp is missing): its id, its pages
  ordered by offset, the flag \<open>useDiskFile\<close> and the open state.\<close>

record File =
  m_fileId :: string
  m_pages :: "page list"
  m_useDiskFile :: bool
  m_open :: bool

text \<open>Modelled from the spec: \<open>make_shared<File>(fileId)\<close>, an empty File (File.cpp is
  missing).\<close>

definition File_new :: "string \<Rightarrow> File" where
  "File_new fileId = \<lparr>m_fileId = fileId, m_pages = [], m_useDiskFile = False, m_open = False\<rparr>"

text \<open>Modelled from the spec: \<open>size\<close> is the maximum of \<open>page.offset + page.size\<close> over all
  pages, or 0 if there is none; \<open>cachedSize\<close> is the sum of the sizes of the pages whose
  body is in memory; the disk size is the sum of the sizes of the other pages (File.cpp is
  missing).\<close>

definition pages_size :: "page list \<Rightarrow> nat" where
  "pages_size ps = foldr (\<lambda>p m. max (page_end p) m) ps 0"

definition pages_cached :: "page list \<Rightarrow> nat" where
  "pages_cached ps = sum_list (map page_size (filter page_in_memory ps))"

definition pages_on_disk :: "page list \<Rightarrow> nat" where
  "pages_on_disk ps = sum_list (map page_size (filter (\<lambda>p. \<not> page_in_memory p) ps))"

definition File_GetSize :: "File \<Rightarrow> size_t" where
  "File_GetSize f = of_nat (pages_size (m_pages f))"

definition File_GetCachedSize :: "File \<Rightarrow> size_t" where
  "File_GetCachedSize f = of_nat (pages_cached (m_pages f))"

definition File_IsOpen :: "File \<Rightarrow> bool" where
  "File_IsOpen f = m_open f"

definition File_SetOpen :: "bool \<Rightarrow> File \<Rightarrow> File" where
  "File_SetOpen b f = f\<lparr>m_open := b\<rparr>"

definition File_SetUseDiskFile :: "bool \<Rightarrow> File \<Rightarrow> File" where
  "File_SetUseDiskFile b f = f\<lparr>m_useDiskFile := b\<rparr>"

text \<open>Modelled from the spec: \<open>clear()\<close> drops all pages (File.cpp is missing).  The disk
  regions it releases are accounted for where the cache clears a File.\<close>

definition File_Clear :: "File \<Rightarrow> File" where
  "File_Clear f = f\<lparr>m_pages := []\<rparr>"

text \<open>Modelled from the spec: \<open>rename(newFid)\<close> updates the id and keeps the pages
  (File.cpp is missing).\<close>

definition File_Rename :: "string \<Rightarrow> File \<Rightarrow> File" where
  "File_Rename newId f = f\<lparr>m_fileId := newId\<rparr>"

text \<open>Modelled from the spec: \<open>resizeToSmallerSize(newSize)\<close> shortens a page that straddles
  \<open>newSize\<close> and drops the pages entirely past it (File.cpp is missing).\<close>

definition truncate_page :: "nat \<Rightarrow> page \<Rightarrow> page" where
  "truncate_page newSize p =
     Page (p_offset p) (body_update (take (newSize - p_offset p)) (p_body p))"

definition File_ResizeToSmallerSize :: "nat \<Rightarrow> File \<Rightarrow> File" where
  "File_ResizeToSmallerSize newSize f =
     f\<lparr>m_pages := map (truncate_page newSize)
                      (filter (\<lambda>p. p_offset p < newSize) (m_pages f))\<rparr>"

text \<open>Modelled from the spec: the page walk of \<open>write\<close> (File.cpp is missing).  The bytes
  \<open>src\<close> go to offset \<open>off\<close>.  An existing page that intersects the range has its overlap
  overwritten in place; for each gap a new page is allocated when \<open>create\<close> holds, on disk
  iff \<open>disk\<close> holds.\<close>

definition new_page :: "bool \<Rightarrow> nat \<Rightarrow> byte list \<Rightarrow> page list" where
  "new_page disk off bs =
     (if bs = [] then [] else [Page off (if disk then OnDisk bs else InMemory bs)])"

definition overwrite :: "page \<Rightarrow> nat \<Rightarrow> byte list \<Rightarrow> page" where
  "overwrite p off bs =
     Page (p_offset p)
       (body_update (\<lambda>old. take (off - p_offset p) old @ bs
                            @ drop (off - p_offset p + length bs) old) (p_body p))"

fun write_pages :: "bool \<Rightarrow> bool \<Rightarrow> page list \<Rightarrow> nat \<Rightarrow> byte list \<Rightarrow> page list" where
  "write_pages create disk [] off src = (if create then new_page disk off src else [])"
| "write_pages create disk (p # ps) off src =
     (if src = [] then p # ps
      else if off + length src \<le> p_offset p then
        (if create then new_page disk off src else []) @ p # ps
      else if page_end p \<le> off then p # write_pages create disk ps off src
      else
        (let start = max off (p_offset p);
             stop = min (off + length src) (page_end p);
             gap = (if create then new_page disk off (take (p_offset p - off) src) else []);
             p' = overwrite p start (take (stop - start) (drop (start - off) src))
         in gap @ p' # write_pages create disk ps (page_end p) (drop (page_end p - off) src)))"

text \<open>Modelled from the spec: \<open>write(off, len, src, open) \<rightarrow> (ok, addedBytes,
  addedDiskBytes)\<close> (File.cpp is missing).  The source buffer is a pointer, read at the
  indices below \<open>len\<close>.  The call records the open state it is given.  New pages go to
  disk iff \<open>useDiskFile\<close> is set; when such a page cannot be allocated (\<open>allocOk\<close> is
  false) no page is created and the call reports failure.  The two numbers returned are
  the growth of the in-memory and of the on-disk bytes.\<close>

definition File_Write ::
  "bool \<Rightarrow> File \<Rightarrow> nat \<Rightarrow> nat \<Rightarrow> (nat \<Rightarrow> byte) \<Rightarrow> bool \<Rightarrow> (bool \<times> size_t \<times> size_t) \<times> File" where
  "File_Write allocOk f off len buffer opn =
     (let src = map buffer [0..<len];
          disk = m_useDiskFile f;
          full = write_pages True disk (m_pages f) off src;
          addedMem = pages_cached full - pages_cached (m_pages f);
          addedDisk = pages_on_disk full - pages_on_disk (m_pages f)
      in if disk \<and> addedDisk \<noteq> 0 \<and> \<not> allocOk
         then ((False, 0, 0),
               f\<lparr>m_pages := write_pages False disk (m_pages f) off src, m_open := opn\<rparr>)
         else ((True, of_nat addedMem, of_nat addedDisk),
               f\<lparr>m_pages := full, m_open := opn\<rparr>))"

text \<open>Modelled from the spec: the bytes a File holds at each offset, \<open>None\<close> where no page
  covers the offset (File.cpp is missing).\<close>

definition page_byte :: "page \<Rightarrow> nat \<Rightarrow> byte option" where
  "page_byte p i =
     (if p_offset p \<le> i \<and> i < page_end p then Some (body_bytes (p_body p) ! (i - p_offset p))
      else None)"

fun pages_byte :: "page list \<Rightarrow> nat \<Rightarrow> byte option" where
  "pages_byte [] i = None"
| "pages_byte (p # ps) i = (case page_byte p i of Some b \<Rightarrow> Some b | None \<Rightarrow> pages_byte ps i)"

subsection \<open>The directory tree and the disk, as the cache sees them\<close>

text \<open>Modelled from the spec: a Node's meta data, of which the cache reads and writes the
  file size and the open state (Node.cpp is missing).\<close>

record node_meta =
  n_fileSize :: size_t
  n_fileOpen :: bool

text \<open>Modelled from the spec: \<open>dirTree->Find(fileId)\<close> is a lookup by file id; a null
  \<open>dirTree\<close> is \<open>None\<close> (DirectoryTree.cpp is missing).\<close>

type_synonym dir_tree = "(string \<rightharpoonup> node_meta) option"

text \<open>Modelled from the spec: what the calls find on the disk (UtilsWithLog.cpp is
  missing): whether the scratch directory exists or can be created, the free bytes of its
  file system, and whether a scratch page can be allocated.  \<open>IsSafeDiskSpace\<close> holds
  when the free bytes are at least the requested size plus a reserve of 16 MiB.\<close>

record disk =
  d_mkdirOk :: bool
  d_free :: nat
  d_allocOk :: bool

definition CreateDirectoryIfNotExists :: "disk \<Rightarrow> bool" where
  "CreateDirectoryIfNotExists d = d_mkdirOk d"

definition IsSafeDiskSpace :: "disk \<Rightarrow> size_t \<Rightarrow> bool" where
  "IsSafeDiskSpace d sz = (unat sz + 16 * 1024 * 1024 \<le> d_free d)"

text \<open>Modelled from the spec: clearing a File releases its disk regions.\<close>

definition disk_release :: "File \<Rightarrow> disk \<Rightarrow> disk" where
  "disk_release f d = d\<lparr>d_free := d_free d + pages_on_disk (m_pages f)\<rparr>"

subsection \<open>The cache\<close>

type_synonym cache_node = "nat \<times> string \<times> File option"

record cache =
  m_cache :: "cache_node list"
  m_map :: "string \<rightharpoonup> nat"
  m_size :: size_t
  m_capacity :: size_t
  m_next :: nat

definition Cache_new :: "size_t \<Rightarrow> cache" where
  "Cache_new capacity =
     \<lparr>m_cache = [], m_map = Map.empty, m_size = 0, m_capacity = capacity, m_next = 0\<rparr>"

text \<open>\<open>pos->second\<close> for a list iterator \<open>pos\<close>: the File of the node at that address.\<close>

definition node_at :: "cache \<Rightarrow> nat \<Rightarrow> (string \<times> File option) option" where
  "node_at c pos = map_of (m_cache c) pos"

definition file_at :: "cache \<Rightarrow> nat \<Rightarrow> File option" where
  "file_at c pos = (case node_at c pos of Some (k, Some f) \<Rightarrow> Some f | _ \<Rightarrow> None)"

text \<open>\<open>m_cache.erase(pos)\<close> for a list iterator.\<close>

definition list_erase :: "nat \<Rightarrow> cache_node list \<Rightarrow> cache_node list" where
  "list_erase pos xs = filter (\<lambda>x. fst x \<noteq> pos) xs"

text \<open>A store through \<open>pos->second\<close>, and one through \<open>pos->first\<close>: they change the
  node that the lookup of \<open>pos\<close> finds.\<close>

fun set_file :: "nat \<Rightarrow> File \<Rightarrow> cache_node list \<Rightarrow> cache_node list" where
  "set_file pos f [] = []"
| "set_file pos f ((a, k, fo) # xs) =
     (if a = pos then (a, k, Some f) # xs else (a, k, fo) # set_file pos f xs)"

fun set_key :: "nat \<Rightarrow> string \<Rightarrow> cache_node list \<Rightarrow> cache_node list" where
  "set_key pos k' [] = []"
| "set_key pos k' ((a, k, fo) # xs) =
     (if a = pos then (a, k', fo) # xs else (a, k, fo) # set_key pos k' xs)"

definition HasFreeSpace :: "cache \<Rightarrow> size_t \<Rightarrow> bool" where
  "HasFreeSpace c sz = (m_size c + sz \<le> m_capacity c)"

definition HasFile :: "cache \<Rightarrow> string \<Rightarrow> bool" where
  "HasFile c filePath = (m_map c filePath \<noteq> None)"

definition GetFileSize :: "cache \<Rightarrow> string \<Rightarrow> size_t option" where
  "GetFileSize c filePath =
     (case m_map c filePath of
        Some pos \<Rightarrow> (case file_at c pos of Some f \<Rightarrow> Some (File_GetSize f) | None \<Rightarrow> None)
      | None \<Rightarrow> Some 0)"


text \<open>\<open>UnguardedMakeFileMostRecentlyUsed(pos)\<close>: \<open>splice\<close> moves the node to the front and
  leaves its address as it is; the result of the call is \<open>begin()\<close>, the same address.\<close>

definition UnguardedMakeFileMostRecentlyUsed :: "cache \<Rightarrow> nat \<Rightarrow> cache option" where
  "UnguardedMakeFileMostRecentlyUsed c pos =
     (case node_at c pos of
        Some e \<Rightarrow> Some (c\<lparr>m_cache := (pos, e) # list_erase pos (m_cache c)\<rparr>)
      | None \<Rightarrow> None)"

text \<open>\<open>UnguardedNewEmptyFile(fileId)\<close>: the pair pushed to the front gets a fresh address;
  \<open>emplace\<close> inserts only where the key is absent.  The iterator returned is \<open>Some\<close> of
  the new address, or \<open>None\<close> for \<open>m_cache.end()\<close>.\<close>

definition UnguardedNewEmptyFile :: "cache \<Rightarrow> string \<Rightarrow> cache \<times> nat option" where
  "UnguardedNewEmptyFile c fileId =
     (let a = m_next c;
          c1 = c\<lparr>m_cache := (a, fileId, Some (File_new fileId)) # m_cache c, m_next := Suc a\<rparr>
      in if fst (snd (hd (m_cache c1))) = fileId then
           (case m_map c1 fileId of
              None \<Rightarrow> (c1\<lparr>m_map := (m_map c1)(fileId \<mapsto> a)\<rparr>, Some a)
            | Some other \<Rightarrow> (c1, None))
         else (c1, None))"

text \<open>\<open>FindFile\<close> and \<open>MakeFile\<close> return a \<open>shared_ptr<File>\<close>: the File found at the
  node, or \<open>None\<close> for the null pointer.\<close>

definition FindFile :: "cache \<Rightarrow> string \<Rightarrow> (cache \<times> File option) option" where
  "FindFile c filePath =
     (case m_map c filePath of
        Some pos \<Rightarrow>
          (case UnguardedMakeFileMostRecentlyUsed c pos of
             Some c' \<Rightarrow> Some (c', file_at c' pos)
           | None \<Rightarrow> None)
      | None \<Rightarrow> Some (c, None))"

definition MakeFile :: "cache \<Rightarrow> string \<Rightarrow> cache \<times> File option" where
  "MakeFile c fileId =
     (case UnguardedNewEmptyFile c fileId of
        (c', Some pos) \<Rightarrow> (c', file_at c' pos)
      | (c', None) \<Rightarrow> (c', None))"

text \<open>\<open>UnguardedErase(pos)\<close> for a map iterator: the entry \<open>fileId \<mapsto> cachePos\<close>.\<close>

definition UnguardedErase :: "cache \<Rightarrow> string \<Rightarrow> nat \<Rightarrow> cache option" where
  "UnguardedErase c fileId cachePos =
     (case file_at c cachePos of
        None \<Rightarrow> None
      | Some f \<Rightarrow>
          Some (c\<lparr>m_size := m_size c - File_GetCachedSize f,
                  m_cache := list_erase cachePos (m_cache c),
                  m_map := (m_map c)(fileId := None)\<rparr>))"

definition Erase :: "cache \<Rightarrow> string \<Rightarrow> cache option" where
  "Erase c fileId =
     (case m_map c fileId of
        Some pos \<Rightarrow> UnguardedErase c fileId pos
      | None \<Rightarrow> Some c)"

text \<open>The loop of \<open>Free\<close>.  The reverse iterator \<open>it\<close> is the number of nodes in front of
  \<open>it.base()\<close>: \<open>rbegin()\<close> is the length of the list, \<open>rend()\<close> is 0, \<open>*it\<close> is the node
  at index \<open>it - 1\<close>, and \<open>++it\<close> subtracts one.

  \<open>m_cache.erase((++it).base())\<close> erases the node \<open>it\<close> pointed at: \<open>++it\<close> has made that
  node the base of \<open>it\<close>, so the erase invalidates \<open>it\<close>, and the iterator that \<open>erase\<close>
  returns is dropped.  The loop condition then compares \<open>it\<close> with \<open>rend()\<close>, from which
  it differs (its base is the erased node, which is not the first node of the list), and
  tests \<open>HasFreeSpace\<close>.  If the free space is there the loop ends.  If not, the body runs
  again and \<open>it->first\<close> reads through the invalidated iterator, out of the erased node:
  undefined behaviour, \<open>None\<close> in the model.\<close>

definition erase_index :: "nat \<Rightarrow> 'a list \<Rightarrow> 'a list" where
  "erase_index i xs = take i xs @ drop (Suc i) xs"

definition Free_after_erase :: "size_t \<Rightarrow> cache \<Rightarrow> cache option" where
  "Free_after_erase sz c = (if HasFreeSpace c sz then Some c else None)"

fun FreeLoop :: "size_t \<Rightarrow> string \<Rightarrow> nat \<Rightarrow> cache \<Rightarrow> cache option" where
  "FreeLoop sz fileUnfreeable 0 c = Some c"
| "FreeLoop sz fileUnfreeable (Suc i) c =
     (if HasFreeSpace c sz then Some c
      else
        (case m_cache c ! i of
           (a, fileId, Some f) \<Rightarrow>
             if fileId \<noteq> fileUnfreeable \<and> \<not> File_IsOpen f then
               Free_after_erase sz
                 (c\<lparr>m_size := m_size c - File_GetCachedSize f,
                    m_cache := erase_index i (m_cache c),
                    m_map := (m_map c)(fileId := None)\<rparr>)
             else FreeLoop sz fileUnfreeable i c
         | (a, fileId, None) \<Rightarrow>
             Free_after_erase sz
               (c\<lparr>m_cache := erase_index i (m_cache c),
                  m_map := (m_map c)(fileId := None)\<rparr>)))"

definition Free :: "cache \<Rightarrow> size_t \<Rightarrow> string \<Rightarrow> (bool \<times> cache) option" where
  "Free c sz fileUnfreeable =
     (if sz > m_capacity c then Some (False, c)
      else if HasFreeSpace c sz then Some (True, c)
      else
        (case FreeLoop sz fileUnfreeable (length (m_cache c)) c of
           Some c' \<Rightarrow> Some (HasFreeSpace c' sz, c')
         | None \<Rightarrow> None))"

text \<open>The loop of \<open>FreeDiskCacheFiles\<close>, the same walk with \<open>IsSafeDiskSpace\<close> as the
  target.  \<open>Clear\<close> gives the disk regions of the evicted File back to the disk.\<close>

definition FreeDisk_after_erase :: "size_t \<Rightarrow> cache \<times> disk \<Rightarrow> (cache \<times> disk) option" where
  "FreeDisk_after_erase sz cd = (if IsSafeDiskSpace (snd cd) sz then Some cd else None)"

fun FreeDiskLoop ::
  "size_t \<Rightarrow> string \<Rightarrow> nat \<Rightarrow> cache \<times> disk \<Rightarrow> (cache \<times> disk) option" where
  "FreeDiskLoop sz fileUnfreeable 0 (c, d) = Some (c, d)"
| "FreeDiskLoop sz fileUnfreeable (Suc i) (c, d) =
     (if IsSafeDiskSpace d sz then Some (c, d)
      else
        (case m_cache c ! i of
           (a, fileId, Some f) \<Rightarrow>
             if fileId \<noteq> fileUnfreeable \<and> \<not> File_IsOpen f then
               FreeDisk_after_erase sz
                 (c\<lparr>m_size := m_size c - File_GetCachedSize f,
                    m_cache := erase_index i (m_cache c),
                    m_map := (m_map c)(fileId := None)\<rparr>,
                  disk_release f d)
             else FreeDiskLoop sz fileUnfreeable i (c, d)
         | (a, fileId, None) \<Rightarrow>
             FreeDisk_after_erase sz
               (c\<lparr>m_cache := erase_index i (m_cache c),
                  m_map := (m_map c)(fileId := None)\<rparr>, d)))"

definition FreeDiskCacheFiles ::
  "cache \<Rightarrow> disk \<Rightarrow> size_t \<Rightarrow> string \<Rightarrow> (bool \<times> cache \<times> disk) option" where
  "FreeDiskCacheFiles c d sz fileUnfreeable =
     (if IsSafeDiskSpace d sz then Some (True, c, d)
      else
        (case FreeDiskLoop sz fileUnfreeable (length (m_cache c)) (c, d) of
           Some (c', d') \<Rightarrow> Some (IsSafeDiskSpace d' sz, c', d')
         | None \<Rightarrow> None))"

text \<open>The cache where the walk of \<open>Free\<close> stops: where the loop ends or, if it does not
  end, where it reads through the invalidated iterator.  This is the loop of \<open>Free\<close>
  again, with one difference: after an erase it yields the cache as it is then, whether
  or not the loop can go on.  It shows what a call has done to the cache also where the
  call has no defined result.\<close>

fun FreeLoop_reached :: "size_t \<Rightarrow> string \<Rightarrow> nat \<Rightarrow> cache \<Rightarrow> cache" where
  "FreeLoop_reached sz fileUnfreeable 0 c = c"
| "FreeLoop_reached sz fileUnfreeable (Suc i) c =
     (if HasFreeSpace c sz then c
      else
        (case m_cache c ! i of
           (a, fileId, Some f) \<Rightarrow>
             if fileId \<noteq> fileUnfreeable \<and> \<not> File_IsOpen f then
               c\<lparr>m_size := m_size c - File_GetCachedSize f,
                 m_cache := erase_index i (m_cache c),
                 m_map := (m_map c)(fileId := None)\<rparr>
             else FreeLoop_reached sz fileUnfreeable i c
         | (a, fileId, None) \<Rightarrow>
             c\<lparr>m_cache := erase_index i (m_cache c),
               m_map := (m_map c)(fileId := None)\<rparr>))"

definition Free_reached :: "cache \<Rightarrow> size_t \<Rightarrow> string \<Rightarrow> cache" where
  "Free_reached c sz fileUnfreeable =
     (if sz > m_capacity c then c
      else if HasFreeSpace c sz then c
      else FreeLoop_reached sz fileUnfreeable (length (m_cache c)) c)"

text \<open>The same for \<open>FreeDiskCacheFiles\<close>: the cache and the disk where its walk stops.\<close>

fun FreeDiskLoop_reached :: "size_t \<Rightarrow> string \<Rightarrow> nat \<Rightarrow> cache \<times> disk \<Rightarrow> cache \<times> disk" where
  "FreeDiskLoop_reached sz fileUnfreeable 0 (c, d) = (c, d)"
| "FreeDiskLoop_reached sz fileUnfreeable (Suc i) (c, d) =
     (if IsSafeDiskSpace d sz then (c, d)
      else
        (case m_cache c ! i of
           (a, fileId, Some f) \<Rightarrow>
             if fileId \<noteq> fileUnfreeable \<and> \<not> File_IsOpen f then
               (c\<lparr>m_size := m_size c - File_GetCachedSize f,
                  m_cache := erase_index i (m_cache c),
                  m_map := (m_map c)(fileId := None)\<rparr>,
                disk_release f d)
             else FreeDiskLoop_reached sz fileUnfreeable i (c, d)
         | (a, fileId, None) \<Rightarrow>
             (c\<lparr>m_cache := erase_index i (m_cache c),
                m_map := (m_map c)(fileId := None)\<rparr>, d)))"

definition FreeDiskCacheFiles_reached :: "cache \<Rightarrow> disk \<Rightarrow> size_t \<Rightarrow> string \<Rightarrow> cache \<times> disk" where
  "FreeDiskCacheFiles_reached c d sz fileUnfreeable =
     (if IsSafeDiskSpace d sz then (c, d)
      else FreeDiskLoop_reached sz fileUnfreeable (length (m_cache c)) (c, d))"

text \<open>The second half of \<open>PrepareWrite\<close>: the File is moved to the front or created
  there, and its flag \<open>useDiskFile\<close> is set.  The result is the address of its node.\<close>

definition PrepareWrite_file :: "cache \<Rightarrow> string \<Rightarrow> bool \<Rightarrow> (nat \<times> cache) option" where
  "PrepareWrite_file c fileId availableFreeSpace =
     (case (case m_map c fileId of
              Some it \<Rightarrow>
                (case UnguardedMakeFileMostRecentlyUsed c it of
                   Some c' \<Rightarrow> Some (c', Some it)
                 | None \<Rightarrow> None)
            | None \<Rightarrow> Some (UnguardedNewEmptyFile c fileId)) of
        Some (c', Some pos) \<Rightarrow>
          (case file_at c' pos of
             Some f \<Rightarrow>
               Some (pos, c'\<lparr>m_cache := set_file pos
                                 (File_SetUseDiskFile (\<not> availableFreeSpace) f) (m_cache c')\<rparr>)
           | None \<Rightarrow> None)
      | _ \<Rightarrow> None)"

text \<open>\<open>PrepareWrite\<close> returns the success flag and the File, here the address of its node
  (\<open>None\<close> for the null pointer), with the cache and the disk as it leaves them.\<close>

definition PrepareWrite ::
  "cache \<Rightarrow> disk \<Rightarrow> string \<Rightarrow> size_t \<Rightarrow> ((bool \<times> nat option) \<times> cache \<times> disk) option" where
  "PrepareWrite c d fileId len =
     (case (if \<not> HasFreeSpace c len then Free c len fileId else Some (True, c)) of
        None \<Rightarrow> None
      | Some (availableFreeSpace, c1) \<Rightarrow>
          (case (if availableFreeSpace then Some (True, c1, d)
                 else if \<not> CreateDirectoryIfNotExists d then Some (False, c1, d)
                 else if \<not> IsSafeDiskSpace d len then FreeDiskCacheFiles c1 d len fileId
                 else Some (True, c1, d)) of
             None \<Rightarrow> None
           | Some (diskOk, c2, d2) \<Rightarrow>
               if \<not> diskOk then Some ((False, None), c2, d2)
               else
                 (case PrepareWrite_file c2 fileId availableFreeSpace of
                    Some (pos, c3) \<Rightarrow> Some ((True, Some pos), c3, d2)
                  | None \<Rightarrow> None)))"

text \<open>The tail of \<open>Write\<close>: the file size and the open state in the meta data.\<close>

definition update_meta :: "dir_tree \<Rightarrow> string \<Rightarrow> size_t \<Rightarrow> size_t \<Rightarrow> bool \<Rightarrow> dir_tree" where
  "update_meta dirTree fileId offset len opn =
     (case dirTree of
        None \<Rightarrow> None
      | Some t \<Rightarrow>
          (case t fileId of
             None \<Rightarrow> Some t
           | Some node \<Rightarrow>
               (let oldFileSize = n_fileSize node;
                    node1 = (if offset + len > oldFileSize
                             then node\<lparr>n_fileSize := offset + len\<rparr> else node)
                in Some (t(fileId \<mapsto> node1\<lparr>n_fileOpen := opn\<rparr>)))))"

text \<open>What both overloads of \<open>Write\<close> do once the input is valid: \<open>PrepareWrite\<close>, the
  File's write, the size counter, the meta data.\<close>

definition write_valid ::
  "cache \<Rightarrow> disk \<Rightarrow> string \<Rightarrow> size_t \<Rightarrow> size_t \<Rightarrow> (nat \<Rightarrow> byte) \<Rightarrow> dir_tree \<Rightarrow> bool
     \<Rightarrow> (bool \<times> cache \<times> dir_tree) option" where
  "write_valid c d fileId offset len buffer dirTree opn =
     (case PrepareWrite c d fileId len of
        None \<Rightarrow> None
      | Some ((False, res), c1, d1) \<Rightarrow> Some (False, c1, dirTree)
      | Some ((True, None), c1, d1) \<Rightarrow> None
      | Some ((True, Some pos), c1, d1) \<Rightarrow>
          (case file_at c1 pos of
             None \<Rightarrow> None
           | Some file \<Rightarrow>
               (case File_Write (d_allocOk d1) file (unat offset) (unat len) buffer opn of
                  ((success, added, addedDisk), file') \<Rightarrow>
                    (let c2 = c1\<lparr>m_cache := set_file pos file' (m_cache c1)\<rparr>;
                         c3 = (if success then c2\<lparr>m_size := m_size c2 + added\<rparr> else c2)
                     in Some (success, c3,
                              if success then update_meta dirTree fileId offset len opn
                              else dirTree)))))"

text \<open>\<open>Write\<close> from a buffer.  A null \<open>buffer\<close> is \<open>None\<close>.\<close>

definition Write ::
  "cache \<Rightarrow> disk \<Rightarrow> string \<Rightarrow> size_t \<Rightarrow> size_t \<Rightarrow> (nat \<Rightarrow> byte) option \<Rightarrow> dir_tree \<Rightarrow> bool
     \<Rightarrow> (bool \<times> cache \<times> dir_tree) option" where
  "Write c d fileId offset len buffer dirTree opn =
     (if len = 0 then
        (case m_map c fileId of
           Some it \<Rightarrow>
             (case UnguardedMakeFileMostRecentlyUsed c it of
                Some c' \<Rightarrow> Some (True, c', dirTree)
              | None \<Rightarrow> None)
         | None \<Rightarrow> Some (True, fst (UnguardedNewEmptyFile c fileId), dirTree))
      else
        (case (if fileId \<noteq> [] \<and> 0 \<le> sint offset then buffer else None) of
           None \<Rightarrow> Some (False, c, dirTree)
         | Some buf \<Rightarrow> write_valid c d fileId offset len buf dirTree opn))"

text \<open>\<open>Write\<close> from a stream.  A null \<open>stream\<close> is \<open>None\<close>; \<open>GetStreamSize\<close> is the number
  of bytes the stream holds.\<close>

definition WriteStream ::
  "cache \<Rightarrow> disk \<Rightarrow> string \<Rightarrow> size_t \<Rightarrow> size_t \<Rightarrow> byte list option \<Rightarrow> dir_tree \<Rightarrow> bool
     \<Rightarrow> (bool \<times> cache \<times> dir_tree) option" where
  "WriteStream c d fileId offset len stream dirTree opn =
     (if len = 0 then
        (case m_map c fileId of
           Some it \<Rightarrow>
             (case UnguardedMakeFileMostRecentlyUsed c it of
                Some c' \<Rightarrow> Some (True, c', dirTree)
              | None \<Rightarrow> None)
         | None \<Rightarrow> Some (True, fst (UnguardedNewEmptyFile c fileId), dirTree))
      else
        (case (if fileId \<noteq> [] \<and> 0 \<le> sint offset then stream else None) of
           None \<Rightarrow> Some (False, c, dirTree)
         | Some bs \<Rightarrow>
             if \<not> unat len \<le> length bs then Some (False, c, dirTree)
             else write_valid c d fileId offset len (\<lambda>i. bs ! i) dirTree opn))"

definition Rename :: "cache \<Rightarrow> string \<Rightarrow> string \<Rightarrow> cache option" where
  "Rename c oldFileId newFileId =
     (if oldFileId = newFileId then Some c
      else
        (case (case m_map c newFileId of
                 Some iter \<Rightarrow> UnguardedErase c newFileId iter
               | None \<Rightarrow> Some c) of
           None \<Rightarrow> None
         | Some c1 \<Rightarrow>
             (case m_map c1 oldFileId of
                None \<Rightarrow> Some c1
              | Some it \<Rightarrow>
                  (case UnguardedMakeFileMostRecentlyUsed
                          (c1\<lparr>m_cache := set_key it newFileId (m_cache c1)\<rparr>) it of
                     None \<Rightarrow> None
                   | Some c2 \<Rightarrow>
                       (case file_at c2 it of
                          None \<Rightarrow> None
                        | Some f \<Rightarrow>
                            (let c3 = c2\<lparr>m_cache :=
                                          set_file it (File_Rename newFileId f) (m_cache c2)\<rparr>;
                                 c4 = (case m_map c3 newFileId of
                                         None \<Rightarrow> c3\<lparr>m_map := (m_map c3)(newFileId \<mapsto> it)\<rparr>
                                       | Some other \<Rightarrow> c3)
                             in Some (c4\<lparr>m_map := (m_map c4)(oldFileId := None)\<rparr>)))))))"

definition SetFileOpen ::
  "cache \<Rightarrow> string \<Rightarrow> bool \<Rightarrow> dir_tree \<Rightarrow> (cache \<times> dir_tree) option" where
  "SetFileOpen c fileId opn dirTree =
     (case (case m_map c fileId of
              Some it \<Rightarrow>
                (case file_at c it of
                   Some f \<Rightarrow> Some (c\<lparr>m_cache := set_file it (File_SetOpen opn f) (m_cache c)\<rparr>)
                 | None \<Rightarrow> None)
            | None \<Rightarrow> Some c) of
        None \<Rightarrow> None
      | Some c' \<Rightarrow>
          Some (c', case dirTree of
                      None \<Rightarrow> None
                    | Some t \<Rightarrow>
                        (case t fileId of
                           Some node \<Rightarrow> Some (t(fileId \<mapsto> node\<lparr>n_fileOpen := opn\<rparr>))
                         | None \<Rightarrow> Some t)))"

text \<open>\<open>vector<char> hole(holeSize)\<close> in \<open>Resize\<close> allocates the hole.  It throws
  \<open>std::length_error\<close> when \<open>holeSize\<close> exceeds \<open>max_size()\<close>, which is \<open>2^63 - 1\<close> for a
  vector of \<open>char\<close> with a 64-bit \<open>ptrdiff_t\<close>, and \<open>std::bad_alloc\<close> when the heap cannot
  give that many bytes.  The heap is represented by the number of bytes it can give.\<close>

datatype exception = length_error | bad_alloc

definition vector_char :: "nat \<Rightarrow> size_t \<Rightarrow> exception option" where
  "vector_char heapFree n =
     (if 2 ^ 63 \<le> unat n then Some length_error
      else if heapFree < unat n then Some bad_alloc
      else None)"

text \<open>\<open>Resize\<close> returns nothing; the model gives the cache and the directory tree it
  leaves.  Nothing in \<open>Resize\<close> catches the exception of the allocation: the call then
  ends with it, in the cache reached so far.\<close>

datatype resize_result = Returns cache dir_tree | Throws exception cache

text \<open>\<open>Resize\<close>.  \<open>file\<close> is a reference to the pointer in the list node \<open>pos\<close>, read
  again after the write or the truncation.  The hole is a buffer of zero bytes.\<close>

definition Resize ::
  "nat \<Rightarrow> cache \<Rightarrow> disk \<Rightarrow> string \<Rightarrow> size_t \<Rightarrow> dir_tree \<Rightarrow> resize_result option" where
  "Resize heapFree c d fileId newFileSize dirTree =
     (case (case m_map c fileId of
              Some it \<Rightarrow> (c, Some it)
            | None \<Rightarrow> UnguardedNewEmptyFile c fileId) of
        (c0, None) \<Rightarrow> None
      | (c0, Some pos) \<Rightarrow>
          (case file_at c0 pos of
             None \<Rightarrow> None
           | Some file \<Rightarrow>
               (let oldFileSize = File_GetSize file;
                    oldFileCacheSize = File_GetCachedSize file
                in if newFileSize = oldFileSize then Some (Returns c0 dirTree)
                   else
                     (case (if newFileSize > oldFileSize then
                              (let holeSize = newFileSize - oldFileSize
                               in case vector_char heapFree holeSize of
                                    Some e \<Rightarrow> Some (Inl e)
                                  | None \<Rightarrow>
                                      (let fileOpen = File_IsOpen file
                                       in case Write c0 d fileId oldFileSize holeSize
                                                 (Some (\<lambda>i. 0)) dirTree fileOpen of
                                            None \<Rightarrow> None
                                          | Some (ok, c1, t1) \<Rightarrow> Some (Inr (c1, t1))))
                            else
                              Some (Inr (c0\<lparr>m_cache := set_file pos
                                         (File_ResizeToSmallerSize (unat newFileSize) file)
                                         (m_cache c0)\<rparr>, dirTree))) of
                        None \<Rightarrow> None
                      | Some (Inl e) \<Rightarrow> Some (Throws e c0)
                      | Some (Inr (c1, t1)) \<Rightarrow>
                          (case file_at c1 pos of
                             None \<Rightarrow> None
                           | Some file1 \<Rightarrow>
                               (let c2 = c1\<lparr>m_size := m_size c1
                                             + (File_GetCachedSize file1 - oldFileCacheSize)\<rparr>
                                in if File_GetSize file1 = newFileSize then
                                     Some (Returns c2
                                            (case t1 of
                                               None \<Rightarrow> None
                                             | Some t \<Rightarrow>
                                                 (case t fileId of
                                                    Some node \<Rightarrow>
                                                      Some (t(fileId \<mapsto>
                                                        node\<lparr>n_fileSize := newFileSize\<rparr>))
                                                  | None \<Rightarrow> Some t)))
                                   else Some (Returns c2 t1)))))))"


subsection \<open>The words of the specification\<close>

text \<open>The nodes eviction must skip: those that hold a File which is the unfreeable one
  or is open.  A node with a null File is not among them.\<close>

definition unfreeable :: "string \<Rightarrow> cache_node \<Rightarrow> bool" where
  "unfreeable fu x =
     (case x of (a, k, Some f) \<Rightarrow> k = fu \<or> File_IsOpen f | (a, k, None) \<Rightarrow> False)"

definition node_cached :: "cache_node \<Rightarrow> size_t" where
  "node_cached x = (case x of (a, k, Some f) \<Rightarrow> File_GetCachedSize f | (a, k, None) \<Rightarrow> 0)"

definition node_on_disk :: "cache_node \<Rightarrow> nat" where
  "node_on_disk x = (case x of (a, k, Some f) \<Rightarrow> pages_on_disk (m_pages f) | (a, k, None) \<Rightarrow> 0)"

text \<open>Of a stretch of the order walked by eviction: the cached bytes it frees, the disk
  bytes it releases and the keys it erases from the index.\<close>

definition freed_size :: "string \<Rightarrow> cache_node list \<Rightarrow> size_t" where
  "freed_size fu xs = sum_list (map node_cached (filter (\<lambda>x. \<not> unfreeable fu x) xs))"

definition released :: "string \<Rightarrow> cache_node list \<Rightarrow> nat" where
  "released fu xs = sum_list (map node_on_disk (filter (\<lambda>x. \<not> unfreeable fu x) xs))"

definition evicted_keys :: "string \<Rightarrow> cache_node list \<Rightarrow> string set" where
  "evicted_keys fu xs = set (map (\<lambda>x. fst (snd x)) (filter (\<lambda>x. \<not> unfreeable fu x) xs))"

text \<open>The cache once eviction has walked the order from the back up to index \<open>j\<close>: the
  first \<open>j\<close> nodes are untouched; of the nodes behind them those to skip stay, in their
  order; the others are gone, with their cached sizes subtracted from the size counter
  and their keys erased from the index.\<close>

definition evict_back :: "cache \<Rightarrow> string \<Rightarrow> nat \<Rightarrow> cache" where
  "evict_back c fu j =
     c\<lparr>m_cache := take j (m_cache c) @ filter (unfreeable fu) (drop j (m_cache c)),
       m_size := m_size c - freed_size fu (drop j (m_cache c)),
       m_map := m_map c |` (- evicted_keys fu (drop j (m_cache c)))\<rparr>"

text \<open>The same for a walk of the nodes \<open>ys\<close> in front of nodes \<open>zs\<close> that the walk has
  left behind, and the disk after the walk.\<close>

definition walked :: "cache \<Rightarrow> string \<Rightarrow> nat \<Rightarrow> cache_node list \<Rightarrow> cache_node list \<Rightarrow> cache" where
  "walked c fu j ys zs =
     c\<lparr>m_cache := take j ys @ filter (unfreeable fu) (drop j ys) @ zs,
       m_size := m_size c - freed_size fu (drop j ys),
       m_map := m_map c |` (- evicted_keys fu (drop j ys))\<rparr>"

definition disk_after :: "disk \<Rightarrow> string \<Rightarrow> nat \<Rightarrow> cache_node list \<Rightarrow> disk" where
  "disk_after d fu j ys = d\<lparr>d_free := d_free d + released fu (drop j ys)\<rparr>"

text \<open>The target of \<open>free\<close> in the integers: \<open>size + currentSize \<le> capacity\<close>.\<close>

definition target_reached :: "cache \<Rightarrow> size_t \<Rightarrow> bool" where
  "target_reached c sz = (unat sz + unat (m_size c) \<le> unat (m_capacity c))"

text \<open>The sum of \<open>cachedSize\<close> over the Files the order holds.\<close>

definition cached_total :: "cache \<Rightarrow> size_t" where
  "cached_total c = sum_list (map node_cached (m_cache c))"

text \<open>Every node of the order is the one the index lists for its key.\<close>

definition order_indexed :: "cache \<Rightarrow> bool" where
  "order_indexed c = list_all (\<lambda>(a, k, fo). m_map c k = Some a) (m_cache c)"

text \<open>The index entry of a key, if there is one, points to a node of the order that has
  this key and holds a File.\<close>

definition entry_ok :: "cache \<Rightarrow> string \<Rightarrow> bool" where
  "entry_ok c fileId =
     (case m_map c fileId of
        None \<Rightarrow> True
      | Some pos \<Rightarrow> (case node_at c pos of Some (k, Some f) \<Rightarrow> k = fileId | _ \<Rightarrow> False))"

text \<open>What \<open>PrepareWrite\<close> finds out: whether memory space was available or freed, and
  whether the disk path succeeded (the scratch directory is there and has safe space,
  possibly after \<open>FreeDiskCacheFiles\<close>).\<close>

definition memory_available :: "cache \<Rightarrow> size_t \<Rightarrow> string \<Rightarrow> bool" where
  "memory_available c len fileId =
     (HasFreeSpace c len \<or> (case Free c len fileId of Some (ok, c1) \<Rightarrow> ok | None \<Rightarrow> False))"

definition disk_path_ok :: "cache \<Rightarrow> disk \<Rightarrow> size_t \<Rightarrow> string \<Rightarrow> bool" where
  "disk_path_ok c d len fileId =
     (CreateDirectoryIfNotExists d \<and>
      (IsSafeDiskSpace d len \<or>
       (case Free c len fileId of
          Some (ok1, c1) \<Rightarrow>
            (case FreeDiskCacheFiles c1 d len fileId of
               Some (ok2, c2, d2) \<Rightarrow> ok2
             | None \<Rightarrow> False)
        | None \<Rightarrow> False)))"

text \<open>No File of the order can be evicted: every node holds the unfreeable File or an
  open File.\<close>

definition no_evictable :: "string \<Rightarrow> cache \<Rightarrow> bool" where
  "no_evictable fu c = list_all (unfreeable fu) (m_cache c)"

text \<open>An eviction walk of \<open>PrepareWrite\<close> runs into undefined behaviour: that of \<open>Free\<close>, or,
  when \<open>Free\<close> has failed and the scratch directory lacks safe space, that of
  \<open>FreeDiskCacheFiles\<close>.\<close>

definition prepare_walk_undefined :: "cache \<Rightarrow> disk \<Rightarrow> string \<Rightarrow> size_t \<Rightarrow> bool" where
  "prepare_walk_undefined c d fileId len =
     (\<not> HasFreeSpace c len \<and>
      (case Free c len fileId of
         None \<Rightarrow> True
       | Some (ok1, c1) \<Rightarrow>
           \<not> ok1 \<and> CreateDirectoryIfNotExists d \<and> \<not> IsSafeDiskSpace d len \<and>
           FreeDiskCacheFiles c1 d len fileId = None))"

text \<open>The pages the cache holds for a file id; none where the file id is not indexed.\<close>

definition file_pages :: "cache \<Rightarrow> string \<Rightarrow> page list" where
  "file_pages c fileId =
     (case m_map c fileId of
        None \<Rightarrow> []
      | Some pos \<Rightarrow> (case file_at c pos of Some f \<Rightarrow> m_pages f | None \<Rightarrow> []))"

text \<open>The result \<open>r\<close> of a write of the bytes \<open>src\<close> is a disk placement: the call returns,
  the File it leaves under the file id is marked \<open>useDiskFile\<close> and has the pages of the
  page walk that allocates every new page on disk, or, where such a page is needed and
  cannot be allocated, the pages of the walk that allocates none, in which case the call
  reports failure.  The bytes the File holds in memory and the size counter are as
  before the call, and the meta data are updated iff the call succeeds.\<close>

definition falls_back_to_disk ::
  "cache \<Rightarrow> bool \<Rightarrow> string \<Rightarrow> size_t \<Rightarrow> size_t \<Rightarrow> byte list \<Rightarrow> dir_tree \<Rightarrow> bool
     \<Rightarrow> (bool \<times> cache \<times> dir_tree) option \<Rightarrow> bool" where
  "falls_back_to_disk c allocOk fileId offset len src dirTree opn r =
     (case r of
        None \<Rightarrow> False
      | Some (success, c', t') \<Rightarrow>
          success = (allocOk \<or>
                     pages_on_disk (write_pages True True (file_pages c fileId) (unat offset) src)
                       \<le> pages_on_disk (file_pages c fileId)) \<and>
          m_size c' = m_size c \<and>
          t' = (if success then update_meta dirTree fileId offset len opn else dirTree) \<and>
          (case m_map c' fileId of
             None \<Rightarrow> False
           | Some pos \<Rightarrow>
               (case file_at c' pos of
                  None \<Rightarrow> False
                | Some f' \<Rightarrow>
                    m_useDiskFile f' \<and> m_open f' = opn \<and>
                    m_pages f' = write_pages success True (file_pages c fileId) (unat offset) src \<and>
                    pages_cached (m_pages f') = pages_cached (file_pages c fileId))))"

subsection \<open>States for the examples\<close>

text \<open>The closed File \<open>a\<close>, three bytes in memory and one on disk, and the open File \<open>b\<close>,
  seven bytes in memory.\<close>

definition ex_file_a :: File where
  "ex_file_a = \<lparr>m_fileId = ''a'', m_pages = [Page 0 (InMemory [1, 2, 3]), Page 3 (OnDisk [4])],
                 m_useDiskFile = False, m_open = False\<rparr>"

definition ex_file_b :: File where
  "ex_file_b = \<lparr>m_fileId = ''b'',
                 m_pages = [Page 0 (InMemory [4, 5]), Page 4 (InMemory [6, 7, 8, 9, 10])],
                 m_useDiskFile = False, m_open = True\<rparr>"

text \<open>Both Files in a full cache of capacity 10, \<open>b\<close> most recently used.\<close>

definition ex_cache :: cache where
  "ex_cache = \<lparr>m_cache = [(1, ''b'', Some ex_file_b), (0, ''a'', Some ex_file_a)],
                m_map = [''a'' \<mapsto> 0, ''b'' \<mapsto> 1], m_size = 10, m_capacity = 10,
                m_next = 2\<rparr>"

text \<open>The same Files with \<open>a\<close> most recently used.\<close>

definition ex_cache_lru_open :: cache where
  "ex_cache_lru_open = \<lparr>m_cache = [(0, ''a'', Some ex_file_a), (1, ''b'', Some ex_file_b)],
                         m_map = [''a'' \<mapsto> 0, ''b'' \<mapsto> 1], m_size = 10, m_capacity = 10,
                         m_next = 2\<rparr>"

text \<open>The open File \<open>b\<close> alone.\<close>

definition ex_cache_open :: cache where
  "ex_cache_open = \<lparr>m_cache = [(1, ''b'', Some ex_file_b)], m_map = [''b'' \<mapsto> 1],
                     m_size = 7, m_capacity = 10, m_next = 2\<rparr>"

text \<open>The cache of capacity 10 with the new empty File \<open>a\<close>, and \<open>a\<close> with a hole of two
  zero bytes.\<close>

definition ex_cache_new :: cache where
  "ex_cache_new = \<lparr>m_cache = [(0, ''a'', Some (File_new ''a''))], m_map = [''a'' \<mapsto> 0],
                    m_size = 0, m_capacity = 10, m_next = 1\<rparr>"

definition ex_file_hole :: File where
  "ex_file_hole = \<lparr>m_fileId = ''a'', m_pages = [Page 0 (InMemory [0, 0])],
                    m_useDiskFile = False, m_open = False\<rparr>"

text \<open>A disk with plenty of space, and a disk that is one byte short of safe space for 20
  bytes and on which no scratch page can be allocated.\<close>

definition ex_disk :: disk where
  "ex_disk = \<lparr>d_mkdirOk = True, d_free = 64 * 1024 * 1024, d_allocOk = True\<rparr>"

definition ex_disk_tight :: disk where
  "ex_disk_tight = \<lparr>d_mkdirOk = True, d_free = 16 * 1024 * 1024 + 19, d_allocOk = False\<rparr>"

text \<open>A directory tree that knows the file \<open>c\<close> with size 1.\<close>

definition ex_tree :: dir_tree where
  "ex_tree = Some [''c'' \<mapsto> \<lparr>n_fileSize = 1, n_fileOpen = False\<rparr>]"

section \<open>Properties\<close>

subsection \<open>Lookups in the order\<close>

lemma node_at_Cons [simp]:
  "node_at (c\<lparr>m_cache := (a, e) # xs\<rparr>) pos = (if pos = a then Some e else map_of xs pos)"
  by (simp add: node_at_def)

lemma pages_size_ex_file_b: "pages_size (m_pages ex_file_b) = 9"
  by (simp add: pages_size_def ex_file_b_def page_end_def page_size_def)

lemma node_at_update [simp]: "node_at (c\<lparr>m_cache := xs\<rparr>) pos = map_of xs pos"
  by (simp add: node_at_def)

lemma map_of_list_erase [simp]:
  "map_of (list_erase pos xs) q = (if q = pos then None else map_of xs q)"
  by (induction xs) (auto simp: list_erase_def)

lemma map_of_set_file [simp]:
  "map_of (set_file pos f xs) q =
     (if q = pos then map_option (\<lambda>(k, fo). (k, Some f)) (map_of xs pos) else map_of xs q)"
  by (induction pos f xs rule: set_file.induct) auto

lemma map_of_set_key [simp]:
  "map_of (set_key pos k' xs) q =
     (if q = pos then map_option (\<lambda>(k, fo). (k', fo)) (map_of xs pos) else map_of xs q)"
  by (induction pos k' xs rule: set_key.induct) auto

lemma PrepareWrite_file_touch:
  "m_map c fileId = Some it \<Longrightarrow> node_at c it = Some (k, Some f) \<Longrightarrow>
   PrepareWrite_file c fileId avail =
     Some (it, c\<lparr>m_cache := (it, k, Some (f\<lparr>m_useDiskFile := \<not> avail\<rparr>))
                                # list_erase it (m_cache c)\<rparr>)"
  by (simp add: PrepareWrite_file_def UnguardedMakeFileMostRecentlyUsed_def file_at_def
        File_SetUseDiskFile_def)

lemma PrepareWrite_file_new:
  "m_map c fileId = None \<Longrightarrow>
   PrepareWrite_file c fileId avail =
     Some (m_next c,
           c\<lparr>m_cache := (m_next c, fileId, Some ((File_new fileId)\<lparr>m_useDiskFile := \<not> avail\<rparr>))
                          # m_cache c,
             m_next := Suc (m_next c), m_map := (m_map c)(fileId \<mapsto> m_next c)\<rparr>)"
  by (simp add: PrepareWrite_file_def UnguardedNewEmptyFile_def file_at_def node_at_def
        File_SetUseDiskFile_def Let_def)

subsection \<open>The eviction walks\<close>

lemma erase_index_append [simp]: "erase_index (length ys) (ys @ y # zs) = ys @ zs"
  by (simp add: erase_index_def)

lemma FreeLoop_snoc:
  "m_cache c = ys @ y # zs \<Longrightarrow>
   FreeLoop sz fu (Suc (length ys)) c =
     (if HasFreeSpace c sz then Some c
      else if unfreeable fu y then FreeLoop sz fu (length ys) c
      else Free_after_erase sz
             (c\<lparr>m_size := m_size c - node_cached y, m_cache := ys @ zs,
                m_map := (m_map c)(fst (snd y) := None)\<rparr>))"
  by (cases y) (auto simp: unfreeable_def node_cached_def split: option.splits)

declare FreeLoop.simps(2) [simp del]

lemma freed_size_simps [simp]:
  "freed_size fu [] = 0"
  "freed_size fu [y] = (if unfreeable fu y then 0 else node_cached y)"
  "freed_size fu (xs @ [y]) = freed_size fu xs + (if unfreeable fu y then 0 else node_cached y)"
  by (simp_all add: freed_size_def)

lemma evicted_keys_simps [simp]:
  "evicted_keys fu [] = {}"
  "evicted_keys fu [y] = (if unfreeable fu y then {} else {fst (snd y)})"
  "evicted_keys fu (xs @ [y]) =
     (if unfreeable fu y then evicted_keys fu xs else insert (fst (snd y)) (evicted_keys fu xs))"
  by (auto simp: evicted_keys_def)

lemma walked_all [simp]: "m_cache c = ys @ zs \<Longrightarrow> walked c fu (length ys) ys zs = c"
  by (rule cache.equality) (simp_all add: walked_def restrict_map_def)

lemma walked_skip:
  "unfreeable fu y \<Longrightarrow> j \<le> length ys \<Longrightarrow>
   walked c fu j ys (y # zs) = walked c fu j (ys @ [y]) zs"
  by (simp add: walked_def)

lemma walked_erase_last:
  "\<not> unfreeable fu y \<Longrightarrow>
   c\<lparr>m_size := m_size c - node_cached y, m_cache := ys @ zs,
     m_map := (m_map c)(fst (snd y) := None)\<rparr> = walked c fu (length ys) (ys @ [y]) zs"
  by (rule cache.equality) (auto simp: walked_def restrict_map_def fun_eq_iff)

lemma length_walked:
  "j \<le> length ys \<Longrightarrow>
   length (m_cache (walked c fu j ys zs))
     = j + length (filter (unfreeable fu) (drop j ys)) + length zs"
  by (simp add: walked_def)

lemma FreeLoop_walk:
  "m_cache c = ys @ zs \<Longrightarrow> FreeLoop sz fu (length ys) c = Some c' \<Longrightarrow>
   \<exists>j\<le>length ys. c' = walked c fu j ys zs \<and>
      (0 < j \<longrightarrow> HasFreeSpace c' sz) \<and>
      (\<forall>l. j < l \<and> l \<le> length ys \<longrightarrow> \<not> HasFreeSpace (walked c fu l ys zs) sz) \<and>
      length (m_cache c) \<le> Suc (length (m_cache c'))"
proof (induction ys arbitrary: c zs rule: rev_induct)
  case Nil
  then show ?case using walked_all [of c "[]" zs fu] by simp
next
  case (snoc y ys)
  have mc: "m_cache c = ys @ y # zs" using snoc.prems by simp
  have all: "walked c fu (length (ys @ [y])) (ys @ [y]) zs = c"
    using snoc.prems(1) by (rule walked_all)
  show ?case
  proof (cases "HasFreeSpace c sz")
    case True
    then have "c' = c" using FreeLoop_snoc [OF mc] snoc.prems(2) by simp
    then show ?thesis using True all
      by (intro exI [of _ "length (ys @ [y])"]) auto
  next
    case nofree: False
    have top: "\<not> HasFreeSpace (walked c fu (length (ys @ [y])) (ys @ [y]) zs) sz"
      using nofree all by simp
    show ?thesis
    proof (cases "unfreeable fu y")
      case True
      have "FreeLoop sz fu (length ys) c = Some c'"
        using FreeLoop_snoc [OF mc] nofree True snoc.prems(2) by simp
      from snoc.IH [OF mc this] obtain j where j: "j \<le> length ys"
        and eq: "c' = walked c fu j ys (y # zs)"
        and stop: "0 < j \<longrightarrow> HasFreeSpace c' sz"
        and least: "\<forall>l. j < l \<and> l \<le> length ys
                      \<longrightarrow> \<not> HasFreeSpace (walked c fu l ys (y # zs)) sz"
        and len: "length (m_cache c) \<le> Suc (length (m_cache c'))"
        by blast
      have "\<forall>l. j < l \<and> l \<le> length (ys @ [y])
              \<longrightarrow> \<not> HasFreeSpace (walked c fu l (ys @ [y]) zs) sz"
      proof (intro allI impI)
        fix l assume l: "j < l \<and> l \<le> length (ys @ [y])"
        show "\<not> HasFreeSpace (walked c fu l (ys @ [y]) zs) sz"
        proof (cases "l \<le> length ys")
          case le: True
          with least l have "\<not> HasFreeSpace (walked c fu l ys (y # zs)) sz" by blast
          then show ?thesis using walked_skip [OF True le, of c zs] by simp
        next
          case False
          then have "l = length (ys @ [y])" using l by simp
          then show ?thesis using top by simp
        qed
      qed
      then show ?thesis using j eq stop len walked_skip [OF True j, of c zs]
        by (intro exI [of _ j]) simp
    next
      case False
      let ?c1 = "c\<lparr>m_size := m_size c - node_cached y, m_cache := ys @ zs,
                   m_map := (m_map c)(fst (snd y) := None)\<rparr>"
      have "Free_after_erase sz ?c1 = Some c'"
        using FreeLoop_snoc [OF mc] nofree False snoc.prems(2) by simp
      then have c': "c' = ?c1" and free: "HasFreeSpace c' sz"
        by (auto simp: Free_after_erase_def split: if_splits)
      have eq: "c' = walked c fu (length ys) (ys @ [y]) zs"
        using c' walked_erase_last [OF False, of c ys zs] by simp
      have "\<forall>l. length ys < l \<and> l \<le> length (ys @ [y])
              \<longrightarrow> \<not> HasFreeSpace (walked c fu l (ys @ [y]) zs) sz"
      proof (intro allI impI)
        fix l assume "length ys < l \<and> l \<le> length (ys @ [y])"
        then have "l = length (ys @ [y])" by simp
        then show "\<not> HasFreeSpace (walked c fu l (ys @ [y]) zs) sz" using top by simp
      qed
      moreover have "length (m_cache c) \<le> Suc (length (m_cache c'))"
        using c' mc by simp
      ultimately show ?thesis using eq free
        by (intro exI [of _ "length ys"]) simp
    qed
  qed
qed

lemma FreeLoop_unchanged:
  "FreeLoop sz fu i c = Some c' \<Longrightarrow> HasFreeSpace c' sz \<or> c' = c"
  by (induction i)
     (auto simp: FreeLoop.simps(2) Free_after_erase_def split: if_splits prod.splits option.splits)

lemma FreeLoop_skips:
  "m_cache c = ys @ zs \<Longrightarrow> list_all (unfreeable fu) ys \<Longrightarrow> \<not> HasFreeSpace c sz \<Longrightarrow>
   FreeLoop sz fu (length ys) c = Some c"
proof (induction ys arbitrary: zs rule: rev_induct)
  case Nil
  then show ?case by simp
next
  case (snoc y ys)
  have mc: "m_cache c = ys @ y # zs" using snoc.prems by simp
  show ?case using FreeLoop_snoc [OF mc] snoc.IH [OF mc] snoc.prems by simp
qed

lemma FreeDiskLoop_snoc:
  "m_cache c = ys @ y # zs \<Longrightarrow>
   FreeDiskLoop sz fu (Suc (length ys)) (c, d) =
     (if IsSafeDiskSpace d sz then Some (c, d)
      else if unfreeable fu y then FreeDiskLoop sz fu (length ys) (c, d)
      else FreeDisk_after_erase sz
             (c\<lparr>m_size := m_size c - node_cached y, m_cache := ys @ zs,
                m_map := (m_map c)(fst (snd y) := None)\<rparr>,
              d\<lparr>d_free := d_free d + node_on_disk y\<rparr>))"
  by (cases y)
     (auto simp: unfreeable_def node_cached_def node_on_disk_def disk_release_def
           split: option.splits)

declare FreeDiskLoop.simps(2) [simp del]

lemma released_simps [simp]:
  "released fu [] = 0"
  "released fu [y] = (if unfreeable fu y then 0 else node_on_disk y)"
  "released fu (xs @ [y]) = released fu xs + (if unfreeable fu y then 0 else node_on_disk y)"
  by (simp_all add: released_def)

lemma disk_after_all [simp]: "disk_after d fu (length ys) ys = d"
  by (simp add: disk_after_def)

lemma disk_after_skip:
  "unfreeable fu y \<Longrightarrow> j \<le> length ys \<Longrightarrow> disk_after d fu j (ys @ [y]) = disk_after d fu j ys"
  by (simp add: disk_after_def)

lemma disk_after_erase_last:
  "\<not> unfreeable fu y \<Longrightarrow>
   d\<lparr>d_free := d_free d + node_on_disk y\<rparr> = disk_after d fu (length ys) (ys @ [y])"
  by (simp add: disk_after_def)

lemma FreeDiskLoop_walk:
  "m_cache c = ys @ zs \<Longrightarrow> FreeDiskLoop sz fu (length ys) (c, d) = Some (c', d') \<Longrightarrow>
   \<exists>j\<le>length ys. c' = walked c fu j ys zs \<and> d' = disk_after d fu j ys \<and>
      (0 < j \<longrightarrow> IsSafeDiskSpace d' sz) \<and>
      (\<forall>l. j < l \<and> l \<le> length ys \<longrightarrow> \<not> IsSafeDiskSpace (disk_after d fu l ys) sz) \<and>
      length (m_cache c) \<le> Suc (length (m_cache c'))"
proof (induction ys arbitrary: c zs rule: rev_induct)
  case Nil
  then show ?case using walked_all [of c "[]" zs fu] by (simp add: disk_after_def)
next
  case (snoc y ys)
  have mc: "m_cache c = ys @ y # zs" using snoc.prems by simp
  have all: "walked c fu (length (ys @ [y])) (ys @ [y]) zs = c"
    using snoc.prems(1) by (rule walked_all)
  show ?case
  proof (cases "IsSafeDiskSpace d sz")
    case True
    then have "c' = c" "d' = d" using FreeDiskLoop_snoc [OF mc] snoc.prems(2) by simp_all
    then show ?thesis using True all
      by (intro exI [of _ "length (ys @ [y])"]) (auto simp del: length_append)
  next
    case nofree: False
    have top: "\<not> IsSafeDiskSpace (disk_after d fu (length (ys @ [y])) (ys @ [y])) sz"
      using nofree by (simp del: length_append)
    show ?thesis
    proof (cases "unfreeable fu y")
      case True
      have "FreeDiskLoop sz fu (length ys) (c, d) = Some (c', d')"
        using FreeDiskLoop_snoc [OF mc] nofree True snoc.prems(2) by simp
      from snoc.IH [OF mc this] obtain j where j: "j \<le> length ys"
        and eq: "c' = walked c fu j ys (y # zs)" "d' = disk_after d fu j ys"
        and stop: "0 < j \<longrightarrow> IsSafeDiskSpace d' sz"
        and least: "\<forall>l. j < l \<and> l \<le> length ys
                      \<longrightarrow> \<not> IsSafeDiskSpace (disk_after d fu l ys) sz"
        and len: "length (m_cache c) \<le> Suc (length (m_cache c'))"
        by blast
      have "\<forall>l. j < l \<and> l \<le> length (ys @ [y])
              \<longrightarrow> \<not> IsSafeDiskSpace (disk_after d fu l (ys @ [y])) sz"
      proof (intro allI impI)
        fix l assume l: "j < l \<and> l \<le> length (ys @ [y])"
        show "\<not> IsSafeDiskSpace (disk_after d fu l (ys @ [y])) sz"
        proof (cases "l \<le> length ys")
          case le: True
          with least l have "\<not> IsSafeDiskSpace (disk_after d fu l ys) sz" by blast
          then show ?thesis using disk_after_skip [OF True le, of d] by simp
        next
          case False
          then have "l = length (ys @ [y])" using l by simp
          then show ?thesis using top by simp
        qed
      qed
      then show ?thesis
        using j eq stop len walked_skip [OF True j, of c zs] disk_after_skip [OF True j, of d]
        by (intro exI [of _ j]) simp
    next
      case False
      let ?c1 = "c\<lparr>m_size := m_size c - node_cached y, m_cache := ys @ zs,
                   m_map := (m_map c)(fst (snd y) := None)\<rparr>"
      let ?d1 = "d\<lparr>d_free := d_free d + node_on_disk y\<rparr>"
      have "FreeDisk_after_erase sz (?c1, ?d1) = Some (c', d')"
        using FreeDiskLoop_snoc [OF mc] nofree False snoc.prems(2) by simp
      then have c': "c' = ?c1" "d' = ?d1" and free: "IsSafeDiskSpace d' sz"
        by (auto simp: FreeDisk_after_erase_def split: if_splits)
      have eq: "c' = walked c fu (length ys) (ys @ [y]) zs"
        "d' = disk_after d fu (length ys) (ys @ [y])"
        using c' walked_erase_last [OF False, of c ys zs] disk_after_erase_last [OF False, of d ys]
        by simp_all
      have "\<forall>l. length ys < l \<and> l \<le> length (ys @ [y])
              \<longrightarrow> \<not> IsSafeDiskSpace (disk_after d fu l (ys @ [y])) sz"
      proof (intro allI impI)
        fix l assume "length ys < l \<and> l \<le> length (ys @ [y])"
        then have "l = length (ys @ [y])" by simp
        then show "\<not> IsSafeDiskSpace (disk_after d fu l (ys @ [y])) sz" using top by simp
      qed
      moreover have "length (m_cache c) \<le> Suc (length (m_cache c'))"
        using c' mc by simp
      ultimately show ?thesis using eq free
        by (intro exI [of _ "length ys"]) simp
    qed
  qed
qed

lemma FreeDiskLoop_unchanged:
  "FreeDiskLoop sz fu i (c, d) = Some (c', d') \<Longrightarrow> IsSafeDiskSpace d' sz \<or> (c', d') = (c, d)"
  by (induction i)
     (auto simp: FreeDiskLoop.simps(2) FreeDisk_after_erase_def
           split: if_splits prod.splits option.splits)

lemma FreeDiskLoop_skips:
  "m_cache c = ys @ zs \<Longrightarrow> list_all (unfreeable fu) ys \<Longrightarrow> \<not> IsSafeDiskSpace d sz \<Longrightarrow>
   FreeDiskLoop sz fu (length ys) (c, d) = Some (c, d)"
proof (induction ys arbitrary: zs rule: rev_induct)
  case Nil
  then show ?case by simp
next
  case (snoc y ys)
  have mc: "m_cache c = ys @ y # zs" using snoc.prems by simp
  show ?case using FreeDiskLoop_snoc [OF mc] snoc.IH [OF mc] snoc.prems by simp
qed

lemma evict_back_walked: "evict_back c fu j = walked c fu j (m_cache c) []"
  by (simp add: evict_back_def walked_def)

lemma evict_back_all [simp]: "evict_back c fu (length (m_cache c)) = c"
  by (simp add: evict_back_walked)

lemma evict_back_fields:
  "m_capacity (evict_back c fu j) = m_capacity c"
  "m_next (evict_back c fu j) = m_next c"
  "m_cache (evict_back c fu j) = take j (m_cache c) @ filter (unfreeable fu) (drop j (m_cache c))"
  "m_size (evict_back c fu j) = m_size c - freed_size fu (drop j (m_cache c))"
  "m_map (evict_back c fu j) = m_map c |` (- evicted_keys fu (drop j (m_cache c)))"
  by (simp_all add: evict_back_def)

lemma Free_walk:
  assumes "Free c sz fu = Some (ok, c')"
  shows "\<exists>j\<le>length (m_cache c).
      c' = evict_back c fu j \<and>
      ok = (sz \<le> m_capacity c \<and> HasFreeSpace c' sz) \<and>
      (j < length (m_cache c) \<longrightarrow> sz \<le> m_capacity c) \<and>
      (0 < j \<longrightarrow> m_capacity c < sz \<or> HasFreeSpace c' sz) \<and>
      (\<forall>l. j < l \<and> l \<le> length (m_cache c) \<longrightarrow> \<not> HasFreeSpace (evict_back c fu l) sz) \<and>
      length (m_cache c) \<le> Suc (length (m_cache c'))"
proof (cases "sz > m_capacity c \<or> HasFreeSpace c sz")
  case True
  with assms have "c' = c" "ok = (sz \<le> m_capacity c \<and> HasFreeSpace c sz)"
    by (auto simp: Free_def split: if_splits)
  then show ?thesis using True
    by (intro exI [of _ "length (m_cache c)"]) auto
next
  case False
  with assms have loop: "FreeLoop sz fu (length (m_cache c)) c = Some c'"
    and ok: "ok = HasFreeSpace c' sz"
    by (auto simp: Free_def split: option.splits)
  from FreeLoop_walk [of c "m_cache c" "[]", OF _ loop] obtain j
    where "j \<le> length (m_cache c)" "c' = evict_back c fu j"
      "0 < j \<longrightarrow> HasFreeSpace c' sz"
      "\<forall>l. j < l \<and> l \<le> length (m_cache c) \<longrightarrow> \<not> HasFreeSpace (evict_back c fu l) sz"
      "length (m_cache c) \<le> Suc (length (m_cache c'))"
    by (auto simp: evict_back_walked)
  then show ?thesis using False ok
    by (intro exI [of _ j]) auto
qed

lemma Free_false_unchanged: "Free c sz fu = Some (False, c') \<Longrightarrow> c' = c"
  using FreeLoop_unchanged [of sz fu "length (m_cache c)" c]
  by (auto simp: Free_def split: if_splits option.splits)

lemma Free_no_evictable:
  "no_evictable fu c \<Longrightarrow> Free c sz fu = Some (sz \<le> m_capacity c \<and> HasFreeSpace c sz, c)"
  using FreeLoop_skips [of c "m_cache c" "[]" fu sz]
  by (auto simp: Free_def no_evictable_def)

lemma FreeDisk_walk:
  assumes "FreeDiskCacheFiles c d sz fu = Some (ok, c', d')"
  shows "\<exists>j\<le>length (m_cache c).
      c' = evict_back c fu j \<and> d' = disk_after d fu j (m_cache c) \<and>
      ok = IsSafeDiskSpace d' sz \<and>
      (0 < j \<longrightarrow> IsSafeDiskSpace d' sz) \<and>
      (\<forall>l. j < l \<and> l \<le> length (m_cache c)
           \<longrightarrow> \<not> IsSafeDiskSpace (disk_after d fu l (m_cache c)) sz) \<and>
      length (m_cache c) \<le> Suc (length (m_cache c'))"
proof (cases "IsSafeDiskSpace d sz")
  case True
  with assms have "c' = c" "d' = d" "ok"
    by (auto simp: FreeDiskCacheFiles_def split: if_splits)
  then show ?thesis using True
    by (intro exI [of _ "length (m_cache c)"]) auto
next
  case False
  with assms have loop: "FreeDiskLoop sz fu (length (m_cache c)) (c, d) = Some (c', d')"
    and ok: "ok = IsSafeDiskSpace d' sz"
    by (auto simp: FreeDiskCacheFiles_def split: option.splits)
  from FreeDiskLoop_walk [of c "m_cache c" "[]", OF _ loop] obtain j
    where "j \<le> length (m_cache c)" "c' = evict_back c fu j"
      "d' = disk_after d fu j (m_cache c)" "0 < j \<longrightarrow> IsSafeDiskSpace d' sz"
      "\<forall>l. j < l \<and> l \<le> length (m_cache c)
         \<longrightarrow> \<not> IsSafeDiskSpace (disk_after d fu l (m_cache c)) sz"
      "length (m_cache c) \<le> Suc (length (m_cache c'))"
    by (auto simp: evict_back_walked)
  then show ?thesis using ok
    by (intro exI [of _ j]) auto
qed

lemma FreeDisk_false_unchanged:
  "FreeDiskCacheFiles c d sz fu = Some (False, c', d') \<Longrightarrow> c' = c \<and> d' = d"
  using FreeDiskLoop_unchanged [of sz fu "length (m_cache c)" c d]
  by (auto simp: FreeDiskCacheFiles_def split: if_splits option.splits)

lemma FreeDisk_no_evictable:
  "no_evictable fu c \<Longrightarrow> FreeDiskCacheFiles c d sz fu = Some (IsSafeDiskSpace d sz, c, d)"
  using FreeDiskLoop_skips [of c "m_cache c" "[]" fu d sz]
  by (auto simp: FreeDiskCacheFiles_def no_evictable_def)

lemma map_of_take_filter_drop:
  "map_of xs pos = Some e \<Longrightarrow> P (pos, e) \<Longrightarrow>
   map_of (take j xs @ filter P (drop j xs)) pos = Some e"
proof (induction xs arbitrary: j)
  case Nil
  then show ?case by simp
next
  case (Cons x xs)
  show ?case
  proof (cases j)
    case 0
    then show ?thesis using Cons.prems Cons.IH [of 0] by (cases x) (auto split: if_splits)
  next
    case (Suc n)
    then show ?thesis using Cons.prems Cons.IH [of n] by (cases x) (auto split: if_splits)
  qed
qed

lemma entry_ok_evict_back: "entry_ok c fileId \<Longrightarrow> entry_ok (evict_back c fileId j) fileId"
proof (cases "m_map (evict_back c fileId j) fileId")
  case None
  then show ?thesis by (simp add: entry_ok_def)
next
  case (Some pos)
  assume ok: "entry_ok c fileId"
  from Some have mp: "m_map c fileId = Some pos"
    by (auto simp: evict_back_fields restrict_map_def split: if_splits)
  with ok obtain f where nd: "map_of (m_cache c) pos = Some (fileId, Some f)"
    by (auto simp: entry_ok_def node_at_def split: option.splits)
  have "unfreeable fileId (pos, fileId, Some f)" by (simp add: unfreeable_def)
  from map_of_take_filter_drop [OF nd, of "unfreeable fileId", OF this]
  show ?thesis using Some by (simp add: entry_ok_def node_at_def evict_back_fields)
qed

lemma set_evict_back: "set (m_cache (evict_back c fu j)) \<subseteq> set (m_cache c)"
  by (auto simp: evict_back_fields dest: in_set_takeD in_set_dropD)

lemma unfreeable_kept:
  "x \<in> set (m_cache c) \<Longrightarrow> unfreeable fu x \<Longrightarrow> x \<in> set (m_cache (evict_back c fu j))"
proof -
  assume x: "x \<in> set (m_cache c)" and u: "unfreeable fu x"
  have "set (m_cache c) = set (take j (m_cache c)) \<union> set (drop j (m_cache c))"
    by (metis append_take_drop_id set_append)
  with x u show ?thesis by (auto simp: evict_back_fields)
qed

lemma distinct_keys_not_evicted:
  assumes "distinct (map (\<lambda>x. fst (snd x)) (m_cache c))" "x \<in> set (m_cache c)"
    "unfreeable fu x"
  shows "m_map (evict_back c fu j) (fst (snd x)) = m_map c (fst (snd x))"
proof -
  have "fst (snd x) \<notin> evicted_keys fu (drop j (m_cache c))"
  proof
    assume "fst (snd x) \<in> evicted_keys fu (drop j (m_cache c))"
    then obtain y where y: "y \<in> set (drop j (m_cache c))" "\<not> unfreeable fu y"
      "fst (snd y) = fst (snd x)"
      by (auto simp: evicted_keys_def)
    then have "y \<in> set (m_cache c)" by (auto dest: in_set_dropD)
    with assms(1,2) y(3) have "y = x"
      by (meson distinct_map inj_on_def)
    with y(2) assms(3) show False by simp
  qed
  then show ?thesis by (simp add: evict_back_fields restrict_map_def)
qed

lemma entry_ok_Free:
  "entry_ok c fileId \<Longrightarrow> Free c sz fileId = Some (ok, c') \<Longrightarrow> entry_ok c' fileId"
  using Free_walk [of c sz fileId ok c'] entry_ok_evict_back [of c fileId] by auto

lemma set_Free: "Free c sz fu = Some (ok, c') \<Longrightarrow> set (m_cache c') \<subseteq> set (m_cache c)"
  using Free_walk [of c sz fu ok c'] set_evict_back [of c fu] by blast

lemma entry_ok_FreeDisk:
  "entry_ok c fileId \<Longrightarrow> FreeDiskCacheFiles c d sz fileId = Some (ok, c', d') \<Longrightarrow>
   entry_ok c' fileId"
  using FreeDisk_walk [of c d sz fileId ok c' d'] entry_ok_evict_back [of c fileId] by auto

lemma set_FreeDisk:
  "FreeDiskCacheFiles c d sz fu = Some (ok, c', d') \<Longrightarrow> set (m_cache c') \<subseteq> set (m_cache c)"
  using FreeDisk_walk [of c d sz fu ok c' d'] set_evict_back [of c fu] by blast

lemma FreeLoop_reached_snoc:
  "m_cache c = ys @ y # zs \<Longrightarrow>
   FreeLoop_reached sz fu (Suc (length ys)) c =
     (if HasFreeSpace c sz then c
      else if unfreeable fu y then FreeLoop_reached sz fu (length ys) c
      else c\<lparr>m_size := m_size c - node_cached y, m_cache := ys @ zs,
             m_map := (m_map c)(fst (snd y) := None)\<rparr>)"
  by (cases y) (auto simp: unfreeable_def node_cached_def split: option.splits)

lemma FreeLoop_reached_Some:
  "FreeLoop sz fu i c = Some c' \<Longrightarrow> FreeLoop_reached sz fu i c = c'"
  by (induction i)
     (auto simp: FreeLoop.simps(2) Free_after_erase_def split: if_splits prod.splits option.splits)

lemma FreeLoop_reached_walk:
  "m_cache c = ys @ zs \<Longrightarrow>
   \<exists>j\<le>length ys. FreeLoop_reached sz fu (length ys) c = walked c fu j ys zs"
proof (induction ys arbitrary: zs rule: rev_induct)
  case Nil
  then show ?case using walked_all [of c "[]" zs fu] by simp
next
  case (snoc y ys)
  have mc: "m_cache c = ys @ y # zs" using snoc.prems by simp
  have all: "walked c fu (length (ys @ [y])) (ys @ [y]) zs = c"
    using snoc.prems(1) by (rule walked_all)
  show ?case
  proof (cases "HasFreeSpace c sz")
    case True
    then show ?thesis using FreeLoop_reached_snoc [OF mc, of sz fu] all
      by (intro exI [of _ "length (ys @ [y])"]) simp
  next
    case nofree: False
    show ?thesis
    proof (cases "unfreeable fu y")
      case True
      from snoc.IH [OF mc] obtain j where j: "j \<le> length ys"
        and eq: "FreeLoop_reached sz fu (length ys) c = walked c fu j ys (y # zs)"
        by blast
      then show ?thesis
        using FreeLoop_reached_snoc [OF mc, of sz fu] nofree True walked_skip [OF True j, of c zs]
        by (intro exI [of _ j]) simp
    next
      case False
      then show ?thesis
        using FreeLoop_reached_snoc [OF mc, of sz fu] nofree walked_erase_last [OF False, of c ys zs]
        by (intro exI [of _ "length ys"]) simp
    qed
  qed
qed

lemma Free_reached_walk: "\<exists>j\<le>length (m_cache c). Free_reached c sz fu = evict_back c fu j"
proof (cases "sz > m_capacity c \<or> HasFreeSpace c sz")
  case True
  then show ?thesis by (intro exI [of _ "length (m_cache c)"]) (auto simp: Free_reached_def)
next
  case False
  then show ?thesis
    using FreeLoop_reached_walk [of c "m_cache c" "[]" sz fu]
    by (auto simp: Free_reached_def evict_back_walked)
qed

lemma Free_reached_Some: "Free c sz fu = Some (ok, c') \<Longrightarrow> c' = Free_reached c sz fu"
  by (auto simp: Free_def Free_reached_def FreeLoop_reached_Some split: if_splits option.splits)

lemma FreeDiskLoop_reached_snoc:
  "m_cache c = ys @ y # zs \<Longrightarrow>
   FreeDiskLoop_reached sz fu (Suc (length ys)) (c, d) =
     (if IsSafeDiskSpace d sz then (c, d)
      else if unfreeable fu y then FreeDiskLoop_reached sz fu (length ys) (c, d)
      else (c\<lparr>m_size := m_size c - node_cached y, m_cache := ys @ zs,
              m_map := (m_map c)(fst (snd y) := None)\<rparr>,
            d\<lparr>d_free := d_free d + node_on_disk y\<rparr>))"
  by (cases y)
     (auto simp: unfreeable_def node_cached_def node_on_disk_def disk_release_def
           split: option.splits)

lemma FreeDiskLoop_reached_Some:
  "FreeDiskLoop sz fu i (c, d) = Some cd \<Longrightarrow> FreeDiskLoop_reached sz fu i (c, d) = cd"
  by (induction i)
     (auto simp: FreeDiskLoop.simps(2) FreeDisk_after_erase_def
           split: if_splits prod.splits option.splits)

lemma FreeDiskLoop_reached_walk:
  "m_cache c = ys @ zs \<Longrightarrow>
   \<exists>j\<le>length ys. FreeDiskLoop_reached sz fu (length ys) (c, d)
                     = (walked c fu j ys zs, disk_after d fu j ys)"
proof (induction ys arbitrary: zs rule: rev_induct)
  case Nil
  then show ?case using walked_all [of c "[]" zs fu] by (simp add: disk_after_def)
next
  case (snoc y ys)
  have mc: "m_cache c = ys @ y # zs" using snoc.prems by simp
  have all: "walked c fu (length (ys @ [y])) (ys @ [y]) zs = c"
    using snoc.prems(1) by (rule walked_all)
  show ?case
  proof (cases "IsSafeDiskSpace d sz")
    case True
    then have "FreeDiskLoop_reached sz fu (length (ys @ [y])) (c, d) = (c, d)"
      using FreeDiskLoop_reached_snoc [OF mc, of sz fu d] by simp
    then show ?thesis using all
      by (intro exI [of _ "length (ys @ [y])"]) (simp del: length_append)
  next
    case nofree: False
    show ?thesis
    proof (cases "unfreeable fu y")
      case True
      from snoc.IH [OF mc] obtain j where j: "j \<le> length ys"
        and eq: "FreeDiskLoop_reached sz fu (length ys) (c, d)
                   = (walked c fu j ys (y # zs), disk_after d fu j ys)"
        by blast
      then show ?thesis
        using FreeDiskLoop_reached_snoc [OF mc, of sz fu d] nofree True
          walked_skip [OF True j, of c zs] disk_after_skip [OF True j, of d]
        by (intro exI [of _ j]) simp
    next
      case False
      then show ?thesis
        using FreeDiskLoop_reached_snoc [OF mc, of sz fu d] nofree
          walked_erase_last [OF False, of c ys zs] disk_after_erase_last [OF False, of d ys]
        by (intro exI [of _ "length ys"]) simp
    qed
  qed
qed

lemma FreeDisk_reached_walk:
  "\<exists>j\<le>length (m_cache c).
     FreeDiskCacheFiles_reached c d sz fu = (evict_back c fu j, disk_after d fu j (m_cache c))"
proof (cases "IsSafeDiskSpace d sz")
  case True
  then show ?thesis
    by (intro exI [of _ "length (m_cache c)"]) (auto simp: FreeDiskCacheFiles_reached_def)
next
  case False
  then show ?thesis
    using FreeDiskLoop_reached_walk [of c "m_cache c" "[]" sz fu d]
    by (auto simp: FreeDiskCacheFiles_reached_def evict_back_walked)
qed

lemma FreeDisk_reached_Some:
  "FreeDiskCacheFiles c d sz fu = Some (ok, c', d') \<Longrightarrow>
   (c', d') = FreeDiskCacheFiles_reached c d sz fu"
  by (auto simp: FreeDiskCacheFiles_def FreeDiskCacheFiles_reached_def
        dest: FreeDiskLoop_reached_Some split: if_splits option.splits)

lemma FreeLoop_None:
  "m_cache c = ys @ zs \<Longrightarrow> FreeLoop sz fu (length ys) c = None \<Longrightarrow>
   \<not> HasFreeSpace (FreeLoop_reached sz fu (length ys) c) sz \<and>
   Suc (length (m_cache (FreeLoop_reached sz fu (length ys) c))) = length (m_cache c)"
proof (induction ys arbitrary: zs rule: rev_induct)
  case Nil
  then show ?case by simp
next
  case (snoc y ys)
  have mc: "m_cache c = ys @ y # zs" using snoc.prems by simp
  show ?case
    using FreeLoop_snoc [OF mc, of sz fu] FreeLoop_reached_snoc [OF mc, of sz fu]
      snoc.IH [OF mc] snoc.prems(2) mc
    by (auto simp: Free_after_erase_def split: if_splits)
qed

lemma Free_None:
  "Free c sz fu = None \<Longrightarrow>
   \<not> HasFreeSpace (Free_reached c sz fu) sz \<and>
   Suc (length (m_cache (Free_reached c sz fu))) = length (m_cache c)"
  using FreeLoop_None [of c "m_cache c" "[]" sz fu]
  by (auto simp: Free_def Free_reached_def split: if_splits option.splits)

lemma FreeDiskLoop_None:
  "m_cache c = ys @ zs \<Longrightarrow> FreeDiskLoop sz fu (length ys) (c, d) = None \<Longrightarrow>
   \<not> IsSafeDiskSpace (snd (FreeDiskLoop_reached sz fu (length ys) (c, d))) sz \<and>
   Suc (length (m_cache (fst (FreeDiskLoop_reached sz fu (length ys) (c, d)))))
     = length (m_cache c)"
proof (induction ys arbitrary: zs rule: rev_induct)
  case Nil
  then show ?case by simp
next
  case (snoc y ys)
  have mc: "m_cache c = ys @ y # zs" using snoc.prems by simp
  show ?case
    using FreeDiskLoop_snoc [OF mc, of sz fu d] FreeDiskLoop_reached_snoc [OF mc, of sz fu d]
      snoc.IH [OF mc] snoc.prems(2) mc
    by (auto simp: FreeDisk_after_erase_def split: if_splits)
qed

lemma FreeDisk_None:
  "FreeDiskCacheFiles c d sz fu = None \<Longrightarrow>
   \<not> IsSafeDiskSpace (snd (FreeDiskCacheFiles_reached c d sz fu)) sz \<and>
   Suc (length (m_cache (fst (FreeDiskCacheFiles_reached c d sz fu)))) = length (m_cache c)"
  using FreeDiskLoop_None [of c "m_cache c" "[]" sz fu d]
  by (auto simp: FreeDiskCacheFiles_def FreeDiskCacheFiles_reached_def
        split: if_splits option.splits)

subsection \<open>GetFileSize\<close>

text \<open>C10: for a file id that is not in the cache \<open>GetFileSize\<close> returns 0 and does not
  fail; for one that is in the cache (its index entry points to a node that holds a File)
  it returns the logical size of that File, the largest end of a page.\<close>

theorem GetFileSize_absent_zero_present_size:
  "(\<not> HasFile c filePath \<longrightarrow> GetFileSize c filePath = Some 0) \<and>
   (\<forall>pos k f. m_map c filePath = Some pos \<and> node_at c pos = Some (k, Some f)
      \<longrightarrow> GetFileSize c filePath = Some (of_nat (pages_size (m_pages f))))"
  by (simp add: GetFileSize_def HasFile_def file_at_def File_GetSize_def)

theorem GetFileSize_absent_zero_present_size_witness:
  "GetFileSize ex_cache ''c'' = Some 0 \<and> GetFileSize ex_cache ''b'' = Some 9"
  using GetFileSize_absent_zero_present_size [of ex_cache "''c''"]
    GetFileSize_absent_zero_present_size [of ex_cache "''b''"]
  by (simp add: HasFile_def ex_cache_def node_at_def pages_size_ex_file_b)

subsection \<open>Free\<close>

lemma ex_files [simp]:
  "node_cached (a, k, Some ex_file_a) = 3" "node_cached (a, k, Some ex_file_b) = 7"
  "node_on_disk (a, k, Some ex_file_a) = 1" "node_on_disk (a, k, Some ex_file_b) = 0"
  "unfreeable fu (a, k, Some ex_file_a) = (k = fu)" "unfreeable fu (a, k, Some ex_file_b)"
  by (simp_all add: node_cached_def node_on_disk_def unfreeable_def File_GetCachedSize_def
        File_IsOpen_def pages_cached_def pages_on_disk_def ex_file_a_def ex_file_b_def
        page_in_memory_def page_size_def)

lemmas ex_eval =
  FreeLoop.simps(2) FreeDiskLoop.simps(2) Free_after_erase_def FreeDisk_after_erase_def
  HasFreeSpace_def IsSafeDiskSpace_def erase_index_def disk_release_def
  File_IsOpen_def File_GetCachedSize_def pages_cached_def pages_on_disk_def
  page_in_memory_def page_size_def ex_file_a_def ex_file_b_def

lemma Free_ex_cache_2:
  "Free ex_cache 2 ''c'' =
     Some (True, ex_cache\<lparr>m_size := 7, m_cache := [(1, ''b'', Some ex_file_b)],
                          m_map := (m_map ex_cache)(''a'' := None)\<rparr>)"
  by (simp add: Free_def ex_cache_def ex_eval)

lemma Free_ex_cache_5: "Free ex_cache 5 ''c'' = None"
  by (simp add: Free_def ex_cache_def ex_eval)

text \<open>C2 fails in the code: \<open>m_cache.erase((++it).base())\<close> invalidates the iterator \<open>it\<close>
  of the walk, and the walk reads through it whenever it has to go on after an erase.
  Take the full cache of capacity 10 with the closed File \<open>a\<close> (3 bytes) in front of the
  open File \<open>b\<close> (7 bytes).  \<open>Free(5, "c")\<close> skips \<open>b\<close>, erases \<open>a\<close>, still lacks the free
  space, and reads \<open>it->first\<close> out of the erased node: the call has no defined result.
  The walk of the claim ends here with \<open>b\<close> alone in the order, short of the target, and
  returns false.\<close>

theorem Free_reads_invalidated_iterator:
  "Free ex_cache_lru_open 5 ''c'' = None \<and>
   m_cache (evict_back ex_cache_lru_open ''c'' 0) = [(1, ''b'', Some ex_file_b)] \<and>
   \<not> HasFreeSpace (evict_back ex_cache_lru_open ''c'' 0) 5"
  by (simp add: Free_def evict_back_fields freed_size_def unfreeable_def node_cached_def
        ex_cache_lru_open_def ex_eval)

lemma HasFreeSpace_target:
  "unat (m_size c) + unat sz < 2 ^ 64 \<Longrightarrow> HasFreeSpace c sz = target_reached c sz"
proof -
  assume "unat (m_size c) + unat sz < 2 ^ 64"
  then have "unat (m_size c + sz) = unat (m_size c) + unat sz"
    by (simp add: unat_add_lem [THEN iffD1])
  then show ?thesis
    by (simp add: HasFreeSpace_def target_reached_def word_le_nat_alt add.commute)
qed

lemma target_needs_capacity: "target_reached c sz \<Longrightarrow> sz \<le> m_capacity c"
  by (simp add: target_reached_def word_le_nat_alt)

text \<open>\<open>Free(size, fileUnfreeable)\<close> where it has a defined result.  For some \<open>j\<close> the
  cache it leaves is \<open>evict_back c fileUnfreeable j\<close>: the first \<open>j\<close> nodes are untouched,
  and of the nodes behind them those that hold the unfreeable File or an open File stay,
  while the other Files and the nodes with a null File are gone.  The walk stops in
  front of \<open>j > 0\<close> nodes only when \<open>size\<close> exceeds the capacity or the free space is
  there, and at no earlier point of the walk was the free space there.  At most one node
  is erased.  The result is true iff \<open>size\<close> is at most the capacity and
  \<open>HasFreeSpace(size)\<close> holds on return, which is the target
  \<open>size + currentSize \<le> capacity\<close> whenever that sum fits into 64 bits; a call that
  returns false has changed nothing.  The result is defined when \<open>size\<close> exceeds the
  capacity, when the free space is there, and when no File can be evicted.\<close>

theorem Free_result_where_defined:
  "(\<forall>ok c'. Free c sz fu = Some (ok, c') \<longrightarrow>
      (\<exists>j\<le>length (m_cache c).
          c' = evict_back c fu j \<and>
          ok = (sz \<le> m_capacity c \<and> HasFreeSpace c' sz) \<and>
          (unat (m_size c') + unat sz < 2 ^ 64 \<longrightarrow> ok = target_reached c' sz) \<and>
          (j < length (m_cache c) \<longrightarrow> sz \<le> m_capacity c) \<and>
          (0 < j \<longrightarrow> m_capacity c < sz \<or> HasFreeSpace c' sz) \<and>
          (\<forall>l. j < l \<and> l \<le> length (m_cache c) \<longrightarrow> \<not> HasFreeSpace (evict_back c fu l) sz) \<and>
          length (m_cache c) \<le> Suc (length (m_cache c')) \<and>
          (\<not> ok \<longrightarrow> c' = c))) \<and>
   (m_capacity c < sz \<or> HasFreeSpace c sz \<or> no_evictable fu c \<longrightarrow> Free c sz fu \<noteq> None)"
proof (intro conjI allI impI)
  fix ok c' assume f: "Free c sz fu = Some (ok, c')"
  from Free_walk [OF f] obtain j where j: "j \<le> length (m_cache c)"
    and eq: "c' = evict_back c fu j"
    and ok: "ok = (sz \<le> m_capacity c \<and> HasFreeSpace c' sz)"
    and rest: "j < length (m_cache c) \<longrightarrow> sz \<le> m_capacity c"
      "0 < j \<longrightarrow> m_capacity c < sz \<or> HasFreeSpace c' sz"
      "\<forall>l. j < l \<and> l \<le> length (m_cache c) \<longrightarrow> \<not> HasFreeSpace (evict_back c fu l) sz"
      "length (m_cache c) \<le> Suc (length (m_cache c'))"
    by blast
  have "ok = target_reached c' sz" if "unat (m_size c') + unat sz < 2 ^ 64"
    using HasFreeSpace_target [OF that] target_needs_capacity [of c' sz] ok eq
    by (auto simp: evict_back_fields)
  moreover have "\<not> ok \<longrightarrow> c' = c" using f Free_false_unchanged [of c sz fu c'] by auto
  ultimately show "\<exists>j\<le>length (m_cache c).
          c' = evict_back c fu j \<and>
          ok = (sz \<le> m_capacity c \<and> HasFreeSpace c' sz) \<and>
          (unat (m_size c') + unat sz < 2 ^ 64 \<longrightarrow> ok = target_reached c' sz) \<and>
          (j < length (m_cache c) \<longrightarrow> sz \<le> m_capacity c) \<and>
          (0 < j \<longrightarrow> m_capacity c < sz \<or> HasFreeSpace c' sz) \<and>
          (\<forall>l. j < l \<and> l \<le> length (m_cache c) \<longrightarrow> \<not> HasFreeSpace (evict_back c fu l) sz) \<and>
          length (m_cache c) \<le> Suc (length (m_cache c')) \<and>
          (\<not> ok \<longrightarrow> c' = c)"
    using j eq ok rest by (intro exI [of _ j]) simp
next
  assume "m_capacity c < sz \<or> HasFreeSpace c sz \<or> no_evictable fu c"
  then show "Free c sz fu \<noteq> None"
    using Free_no_evictable [of fu c sz] by (auto simp: Free_def)
qed

lemma ex_cache_simps [simp]:
  "length (m_cache ex_cache) = 2" "m_capacity ex_cache = 10" "m_size ex_cache = 10"
  by (simp_all add: ex_cache_def)

theorem Free_result_where_defined_witness:
  "Free ex_cache 2 ''c'' =
     Some (True, ex_cache\<lparr>m_size := 7, m_cache := [(1, ''b'', Some ex_file_b)],
                          m_map := (m_map ex_cache)(''a'' := None)\<rparr>) \<and>
   target_reached (ex_cache\<lparr>m_size := 7, m_cache := [(1, ''b'', Some ex_file_b)],
                            m_map := (m_map ex_cache)(''a'' := None)\<rparr>) 2 \<and>
   Free ex_cache_open 5 ''c'' \<noteq> None"
proof -
  have "no_evictable ''c'' ex_cache_open"
    by (simp add: no_evictable_def ex_cache_open_def)
  then have "Free ex_cache_open 5 ''c'' \<noteq> None"
    using Free_result_where_defined [of ex_cache_open 5 "''c''"] by blast
  moreover have "target_reached (ex_cache\<lparr>m_size := 7, m_cache := [(1, ''b'', Some ex_file_b)],
                            m_map := (m_map ex_cache)(''a'' := None)\<rparr>) 2"
    using Free_result_where_defined [of ex_cache 2 "''c''"] Free_ex_cache_2 by auto
  ultimately show ?thesis using Free_ex_cache_2 by simp
qed

subsection \<open>Preparing a write\<close>

lemma PrepareWrite_file_ok:
  assumes "entry_ok c fileId"
  shows "\<exists>pos f c'. PrepareWrite_file c fileId avail = Some (pos, c') \<and>
           m_map c' fileId = Some pos \<and> file_at c' pos = Some f \<and>
           m_useDiskFile f = (\<not> avail) \<and> m_size c' = m_size c \<and>
           m_capacity c' = m_capacity c \<and> hd (m_cache c') = (pos, fileId, Some f)"
proof (cases "m_map c fileId")
  case None
  show ?thesis
    unfolding PrepareWrite_file_new [OF None]
    by (simp add: file_at_def node_at_def)
next
  case (Some it)
  with assms obtain f where "node_at c it = Some (fileId, Some f)"
    by (auto simp: entry_ok_def split: option.splits)
  from PrepareWrite_file_touch [OF Some this] show ?thesis
    by (simp add: file_at_def node_at_def Some)
qed

lemma PrepareWrite_unfold:
  "PrepareWrite c d fileId len =
     (if HasFreeSpace c len then
        (case PrepareWrite_file c fileId True of
           Some (pos, c3) \<Rightarrow> Some ((True, Some pos), c3, d) | None \<Rightarrow> None)
      else
        (case Free c len fileId of
           None \<Rightarrow> None
         | Some (ok1, c1) \<Rightarrow>
             if ok1 then
               (case PrepareWrite_file c1 fileId True of
                  Some (pos, c3) \<Rightarrow> Some ((True, Some pos), c3, d) | None \<Rightarrow> None)
             else if \<not> CreateDirectoryIfNotExists d then Some ((False, None), c1, d)
             else if IsSafeDiskSpace d len then
               (case PrepareWrite_file c1 fileId False of
                  Some (pos, c3) \<Rightarrow> Some ((True, Some pos), c3, d) | None \<Rightarrow> None)
             else
               (case FreeDiskCacheFiles c1 d len fileId of
                  None \<Rightarrow> None
                | Some (ok2, c2, d2) \<Rightarrow>
                    if ok2 then
                      (case PrepareWrite_file c2 fileId False of
                         Some (pos, c3) \<Rightarrow> Some ((True, Some pos), c3, d2) | None \<Rightarrow> None)
                    else Some ((False, None), c2, d2))))"
  by (auto simp: PrepareWrite_def split: option.splits prod.splits)

subsection \<open>PrepareWrite\<close>

text \<open>C8: \<open>PrepareWrite\<close> for a file id whose index entry, if any, is sound.  It has no
  defined result exactly when one of its eviction walks has none.  Where it has one, it
  succeeds iff memory space was available or freed, or else the disk path succeeded.  On
  success the target File, which the index then lists under the file id, has
  \<open>useDiskFile\<close> set to true iff the memory free attempt failed while the disk path
  succeeded; where memory space was available or freed the flag is false.  On failure no
  File is returned and no File is marked: every node left in the order is a node of the
  order before.\<close>

theorem PrepareWrite_marks_useDiskFile:
  assumes "entry_ok c fileId"
  shows "(PrepareWrite c d fileId len = None \<longleftrightarrow> prepare_walk_undefined c d fileId len) \<and>
         (\<forall>ok res c' d'. PrepareWrite c d fileId len = Some ((ok, res), c', d') \<longrightarrow>
            (ok \<longleftrightarrow> memory_available c len fileId \<or> disk_path_ok c d len fileId) \<and>
            (ok \<longrightarrow> (\<exists>pos f. res = Some pos \<and> m_map c' fileId = Some pos \<and>
                       file_at c' pos = Some f \<and>
                       (m_useDiskFile f \<longleftrightarrow>
                          \<not> memory_available c len fileId \<and> disk_path_ok c d len fileId))) \<and>
            (\<not> ok \<longrightarrow> res = None \<and> set (m_cache c') \<subseteq> set (m_cache c)))"
proof (cases "HasFreeSpace c len")
  case True
  from PrepareWrite_file_ok [OF assms, of True] obtain pos f c' where
    "PrepareWrite_file c fileId True = Some (pos, c')" "m_map c' fileId = Some pos"
    "file_at c' pos = Some f" "m_useDiskFile f = (\<not> True)"
    by blast
  then show ?thesis using True
    by (subst (1 2) PrepareWrite_unfold)
       (auto simp: memory_available_def prepare_walk_undefined_def)
next
  case nofree: False
  show ?thesis
  proof (cases "Free c len fileId")
    case None
    then show ?thesis using nofree
      by (subst (1 2) PrepareWrite_unfold) (auto simp: prepare_walk_undefined_def)
  next
    case (Some r)
    then obtain ok1 c1 where fr: "Free c len fileId = Some (ok1, c1)" by (cases r) auto
    have ok1: "entry_ok c1 fileId" using assms fr by (rule entry_ok_Free)
    have sub1: "set (m_cache c1) \<subseteq> set (m_cache c)" using fr by (rule set_Free)
    show ?thesis
    proof (cases ok1)
      case True
      from PrepareWrite_file_ok [OF ok1, of True] obtain pos f c' where
        "PrepareWrite_file c1 fileId True = Some (pos, c')" "m_map c' fileId = Some pos"
        "file_at c' pos = Some f" "m_useDiskFile f = (\<not> True)"
        by blast
      then show ?thesis using nofree fr True
        by (subst (1 2) PrepareWrite_unfold)
           (auto simp: memory_available_def prepare_walk_undefined_def)
    next
      case mem: False
      have nomem: "\<not> memory_available c len fileId"
        using nofree fr mem by (simp add: memory_available_def)
      show ?thesis
      proof (cases "CreateDirectoryIfNotExists d")
        case False
        then show ?thesis using nofree fr mem nomem sub1
          by (subst (1 2) PrepareWrite_unfold)
             (auto simp: disk_path_ok_def prepare_walk_undefined_def)
      next
        case mk: True
        show ?thesis
        proof (cases "IsSafeDiskSpace d len")
          case True
          from PrepareWrite_file_ok [OF ok1, of False] obtain pos f c' where
            "PrepareWrite_file c1 fileId False = Some (pos, c')" "m_map c' fileId = Some pos"
            "file_at c' pos = Some f" "m_useDiskFile f = (\<not> False)"
            by blast
          then show ?thesis using nofree fr mem nomem mk True
            by (subst (1 2) PrepareWrite_unfold)
               (auto simp: disk_path_ok_def prepare_walk_undefined_def)
        next
          case unsafe: False
          show ?thesis
          proof (cases "FreeDiskCacheFiles c1 d len fileId")
            case None
            then show ?thesis using nofree fr mem mk unsafe
              by (subst (1 2) PrepareWrite_unfold) (auto simp: prepare_walk_undefined_def)
          next
            case (Some r2)
            then obtain ok2 c2 d2 where
              fd: "FreeDiskCacheFiles c1 d len fileId = Some (ok2, c2, d2)"
              by (cases r2) auto
            have ok2: "entry_ok c2 fileId" using ok1 fd by (rule entry_ok_FreeDisk)
            have sub2: "set (m_cache c2) \<subseteq> set (m_cache c)"
              using set_FreeDisk [OF fd] sub1 by blast
            show ?thesis
            proof (cases ok2)
              case True
              from PrepareWrite_file_ok [OF ok2, of False] obtain pos f c' where
                "PrepareWrite_file c2 fileId False = Some (pos, c')"
                "m_map c' fileId = Some pos"
                "file_at c' pos = Some f" "m_useDiskFile f = (\<not> False)"
                by blast
              then show ?thesis using nofree fr mem nomem mk unsafe fd True
                by (subst (1 2) PrepareWrite_unfold)
                   (auto simp: disk_path_ok_def prepare_walk_undefined_def)
            next
              case False
              then show ?thesis using nofree fr mem nomem mk unsafe fd sub2
                by (subst (1 2) PrepareWrite_unfold)
                   (auto simp: disk_path_ok_def prepare_walk_undefined_def)
            qed
          qed
        qed
      qed
    qed
  qed
qed

lemma ex_disk_safe:
  "IsSafeDiskSpace ex_disk 5" "CreateDirectoryIfNotExists ex_disk"
  "\<not> IsSafeDiskSpace ex_disk_tight 20" "CreateDirectoryIfNotExists ex_disk_tight"
  "\<not> d_allocOk ex_disk_tight" "d_allocOk ex_disk"
  by (simp_all add: IsSafeDiskSpace_def CreateDirectoryIfNotExists_def ex_disk_def
        ex_disk_tight_def)

lemma entry_ok_ex_c: "entry_ok ex_cache ''c''" "entry_ok ex_cache_open ''c''"
  by (simp_all add: entry_ok_def ex_cache_def ex_cache_open_def)

lemma Free_ex_cache_open: "Free ex_cache_open 5 ''c'' = Some (False, ex_cache_open)"
  using Free_no_evictable [of "''c''" ex_cache_open 5]
  by (simp add: no_evictable_def HasFreeSpace_def) (simp add: ex_cache_open_def)

lemma Free_ex_cache_20: "Free ex_cache 20 ''c'' = Some (False, ex_cache)"
  by (simp add: Free_def)

lemma FreeDisk_ex_cache_tight:
  "FreeDiskCacheFiles ex_cache ex_disk_tight 20 ''c'' =
     Some (True, ex_cache\<lparr>m_size := 7, m_cache := [(1, ''b'', Some ex_file_b)],
                          m_map := (m_map ex_cache)(''a'' := None)\<rparr>,
           ex_disk_tight\<lparr>d_free := 16 * 1024 * 1024 + 20\<rparr>)"
  by (simp add: FreeDiskCacheFiles_def ex_cache_def ex_disk_tight_def ex_eval)

lemma ex_cache_low [simp]:
  "\<not> HasFreeSpace ex_cache 2" "\<not> HasFreeSpace ex_cache 20" "\<not> HasFreeSpace ex_cache_open 5"
  by (simp_all add: HasFreeSpace_def ex_cache_open_def)

theorem PrepareWrite_marks_useDiskFile_witness:
  "(\<exists>pos f c' d'. PrepareWrite ex_cache ex_disk ''c'' 2 = Some ((True, Some pos), c', d') \<and>
       file_at c' pos = Some f \<and> \<not> m_useDiskFile f) \<and>
   (\<exists>pos f c' d'. PrepareWrite ex_cache_open ex_disk ''c'' 5 = Some ((True, Some pos), c', d') \<and>
       file_at c' pos = Some f \<and> m_useDiskFile f) \<and>
   (\<exists>pos f c' d'. PrepareWrite ex_cache ex_disk_tight ''c'' 20
                     = Some ((True, Some pos), c', d') \<and>
       file_at c' pos = Some f \<and> m_useDiskFile f)"
proof (intro conjI)
  have "memory_available ex_cache 2 ''c''" "\<not> prepare_walk_undefined ex_cache ex_disk ''c'' 2"
    by (simp_all add: memory_available_def prepare_walk_undefined_def Free_ex_cache_2)
  then show "\<exists>pos f c' d'.
       PrepareWrite ex_cache ex_disk ''c'' 2 = Some ((True, Some pos), c', d') \<and>
       file_at c' pos = Some f \<and> \<not> m_useDiskFile f"
    using PrepareWrite_marks_useDiskFile [OF entry_ok_ex_c(1), of ex_disk 2]
    by (cases "PrepareWrite ex_cache ex_disk ''c'' 2") auto
next
  have "\<not> memory_available ex_cache_open 5 ''c''" "disk_path_ok ex_cache_open ex_disk 5 ''c''"
    "\<not> prepare_walk_undefined ex_cache_open ex_disk ''c'' 5"
    by (simp_all add: memory_available_def disk_path_ok_def prepare_walk_undefined_def
          Free_ex_cache_open ex_disk_safe)
  then show "\<exists>pos f c' d'.
       PrepareWrite ex_cache_open ex_disk ''c'' 5 = Some ((True, Some pos), c', d') \<and>
       file_at c' pos = Some f \<and> m_useDiskFile f"
    using PrepareWrite_marks_useDiskFile [OF entry_ok_ex_c(2), of ex_disk 5]
    by (cases "PrepareWrite ex_cache_open ex_disk ''c'' 5") auto
next
  have "\<not> memory_available ex_cache 20 ''c''" "disk_path_ok ex_cache ex_disk_tight 20 ''c''"
    "\<not> prepare_walk_undefined ex_cache ex_disk_tight ''c'' 20"
    by (simp_all add: memory_available_def disk_path_ok_def prepare_walk_undefined_def
          Free_ex_cache_20 FreeDisk_ex_cache_tight ex_disk_safe)
  then show "\<exists>pos f c' d'.
       PrepareWrite ex_cache ex_disk_tight ''c'' 20 = Some ((True, Some pos), c', d') \<and>
       file_at c' pos = Some f \<and> m_useDiskFile f"
    using PrepareWrite_marks_useDiskFile [OF entry_ok_ex_c(1), of ex_disk_tight 20]
    by (cases "PrepareWrite ex_cache ex_disk_tight ''c'' 20") auto
qed

subsection \<open>Open Files and eviction\<close>

lemma page_overwrite_kept:
  "p_offset p \<le> start \<Longrightarrow> start + length bs \<le> page_end p \<Longrightarrow>
   page_in_memory (overwrite p start bs) = page_in_memory p \<and>
   page_size (overwrite p start bs) = page_size p"
  by (cases p; cases "p_body p")
     (auto simp: overwrite_def page_in_memory_def page_size_def page_end_def)

lemma pages_cached_simps:
  "pages_cached [] = 0"
  "pages_cached (p # ps) = (if page_in_memory p then page_size p else 0) + pages_cached ps"
  "pages_cached (ps @ qs) = pages_cached ps + pages_cached qs"
  "pages_cached (new_page True off bs) = 0"
  by (simp_all add: pages_cached_def new_page_def page_in_memory_def)

lemma pages_cached_write_disk:
  "pages_cached (write_pages create True ps off src) = pages_cached ps"
proof (induction create True ps off src rule: write_pages.induct)
  case (1 create off src)
  then show ?case by (simp add: pages_cached_simps)
next
  case (2 create p ps off src)
  show ?case
  proof (cases "src = [] \<or> off + length src \<le> p_offset p \<or> page_end p \<le> off")
    case True
    then show ?thesis using 2 by (auto simp: pages_cached_simps)
  next
    case False
    let ?start = "max off (p_offset p)"
    let ?stop = "min (off + length src) (page_end p)"
    let ?bs = "take (?stop - ?start) (drop (?start - off) src)"
    have "p_offset p \<le> ?start" by simp
    moreover have "?start + length ?bs \<le> page_end p"
      using False by (auto simp: page_end_def)
    ultimately have "page_in_memory (overwrite p ?start ?bs) = page_in_memory p"
      "page_size (overwrite p ?start ?bs) = page_size p"
      using page_overwrite_kept by blast+
    then show ?thesis using False 2 by (simp add: Let_def pages_cached_simps)
  qed
qed

lemma PrepareWrite_file_pages:
  assumes "entry_ok c fileId"
  shows "\<exists>pos f c'. PrepareWrite_file c fileId avail = Some (pos, c') \<and>
           m_map c' fileId = Some pos \<and> node_at c' pos = Some (fileId, Some f) \<and>
           m_useDiskFile f = (\<not> avail) \<and> m_pages f = file_pages c fileId \<and>
           m_size c' = m_size c"
proof (cases "m_map c fileId")
  case None
  show ?thesis
    unfolding PrepareWrite_file_new [OF None]
    by (simp add: file_pages_def None File_new_def node_at_def)
next
  case (Some it)
  with assms obtain f where "node_at c it = Some (fileId, Some f)"
    by (auto simp: entry_ok_def split: option.splits)
  from PrepareWrite_file_touch [OF Some this] this show ?thesis
    by (simp add: file_pages_def file_at_def Some)
qed

lemma file_at_m_size: "file_at (c\<lparr>m_size := s\<rparr>) pos = file_at c pos"
  by (simp add: file_at_def node_at_def)

lemma write_valid_falls_back:
  assumes "no_evictable fileId c" "\<not> HasFreeSpace c len" "entry_ok c fileId"
    and "CreateDirectoryIfNotExists d" "IsSafeDiskSpace d len"
  shows "falls_back_to_disk c (d_allocOk d) fileId offset len (map buf [0..<unat len]) dirTree opn
           (write_valid c d fileId offset len buf dirTree opn)"
proof -
  have fr: "Free c len fileId = Some (False, c)"
    using assms(1,2) Free_no_evictable [of fileId c len] by simp
  from PrepareWrite_file_pages [OF assms(3), of False] obtain pos f c1 where
    pf: "PrepareWrite_file c fileId False = Some (pos, c1)"
    and mp: "m_map c1 fileId = Some pos"
    and nd: "node_at c1 pos = Some (fileId, Some f)"
    and fl: "m_useDiskFile f" "m_pages f = file_pages c fileId"
    and sz: "m_size c1 = m_size c"
    by auto
  have pw: "PrepareWrite c d fileId len = Some ((True, Some pos), c1, d)"
    using assms(2,4,5) fr pf by (subst PrepareWrite_unfold) simp
  have fa: "file_at c1 pos = Some f" using nd by (simp add: file_at_def)
  have fa': "\<And>f'. file_at (c1\<lparr>m_cache := set_file pos f' (m_cache c1)\<rparr>) pos = Some f'"
    using nd by (simp add: file_at_def node_at_def)
  show ?thesis
    using pw fa fa' mp sz fl pages_cached_write_disk [of True "file_pages c fileId"]
      pages_cached_write_disk [of False "file_pages c fileId"]
    by (auto simp: falls_back_to_disk_def write_valid_def File_Write_def Let_def file_at_m_size)
qed

lemma map_nth_take: "n \<le> length bs \<Longrightarrow> map (\<lambda>i. bs ! i) [0..<n] = take n bs"
  by (simp add: list_eq_iff_nth_eq)

lemma write_valid_no_disk:
  assumes "no_evictable fileId c" "\<not> HasFreeSpace c len"
    and "\<not> (CreateDirectoryIfNotExists d \<and> IsSafeDiskSpace d len)"
  shows "write_valid c d fileId offset len buf dirTree opn = Some (False, c, dirTree)"
proof -
  have fr: "Free c len fileId = Some (False, c)"
    using assms(1,2) Free_no_evictable [of fileId c len] by simp
  have fd: "FreeDiskCacheFiles c d len fileId = Some (IsSafeDiskSpace d len, c, d)"
    using assms(1) by (rule FreeDisk_no_evictable)
  have "PrepareWrite c d fileId len = Some ((False, None), c, d)"
    using assms(2,3) fr fd by (subst PrepareWrite_unfold) auto
  then show ?thesis by (simp add: write_valid_def)
qed

text \<open>C3: a node of the order that holds an open File is still in the order, with the same
  File and so with its pages, wherever a walk of \<open>Free\<close> or of \<open>FreeDiskCacheFiles\<close>
  stops: where the call returns, and also where it reads through the invalidated iterator
  and has no defined result, which it does after it has erased one node and still lacks
  the space.  Where the keys of the order are distinct its index entry is untouched as
  well.  The same holds for the walk of the specification, \<open>evict_back\<close>,
  carried on to any index.  When no File can be evicted (every node holds the unfreeable
  File or an open File) and the free space is missing, \<open>Free\<close> fails and leaves the cache
  as it is, and \<open>PrepareWrite\<close> succeeds iff the scratch directory is there and has safe
  space, in which case the target File is marked \<open>useDiskFile\<close>.  A \<open>Write\<close> of
  \<open>len > 0\<close> bytes with valid input, from a buffer or from a stream, is then a disk
  placement: the File gets the pages of the page walk that allocates every new page on
  disk, and its bytes in memory and the size counter stay as they are.  Where the scratch
  directory is missing or lacks safe space the \<open>Write\<close> returns false and changes
  nothing.\<close>

theorem eviction_spares_open_files:
  "(\<forall>x\<in>set (m_cache c). \<forall>a k f. x = (a, k, Some f) \<and> File_IsOpen f \<longrightarrow>
       (\<forall>ok c'. Free c sz fu = Some (ok, c') \<longrightarrow>
          x \<in> set (m_cache c') \<and>
          (distinct (map (\<lambda>x. fst (snd x)) (m_cache c)) \<longrightarrow> m_map c' k = m_map c k)) \<and>
       (\<forall>ok c' d'. FreeDiskCacheFiles c d sz fu = Some (ok, c', d') \<longrightarrow>
          x \<in> set (m_cache c') \<and>
          (distinct (map (\<lambda>x. fst (snd x)) (m_cache c)) \<longrightarrow> m_map c' k = m_map c k)) \<and>
       x \<in> set (m_cache (Free_reached c sz fu)) \<and>
       x \<in> set (m_cache (fst (FreeDiskCacheFiles_reached c d sz fu))) \<and>
       (distinct (map (\<lambda>x. fst (snd x)) (m_cache c)) \<longrightarrow>
          m_map (Free_reached c sz fu) k = m_map c k \<and>
          m_map (fst (FreeDiskCacheFiles_reached c d sz fu)) k = m_map c k) \<and>
       (\<forall>j. x \<in> set (m_cache (evict_back c fu j)))) \<and>
   ((\<forall>ok c'. Free c sz fu = Some (ok, c') \<longrightarrow> c' = Free_reached c sz fu) \<and>
    (Free c sz fu = None \<longrightarrow>
       \<not> HasFreeSpace (Free_reached c sz fu) sz \<and>
       Suc (length (m_cache (Free_reached c sz fu))) = length (m_cache c))) \<and>
   ((\<forall>ok c' d'. FreeDiskCacheFiles c d sz fu = Some (ok, c', d') \<longrightarrow>
       (c', d') = FreeDiskCacheFiles_reached c d sz fu) \<and>
    (FreeDiskCacheFiles c d sz fu = None \<longrightarrow>
       \<not> IsSafeDiskSpace (snd (FreeDiskCacheFiles_reached c d sz fu)) sz \<and>
       Suc (length (m_cache (fst (FreeDiskCacheFiles_reached c d sz fu))))
         = length (m_cache c))) \<and>
   (no_evictable fileId c \<and> \<not> HasFreeSpace c len \<and> entry_ok c fileId \<longrightarrow>
      Free c len fileId = Some (False, c) \<and>
      (\<exists>ok res c' d'. PrepareWrite c d fileId len = Some ((ok, res), c', d') \<and>
         (ok \<longleftrightarrow> CreateDirectoryIfNotExists d \<and> IsSafeDiskSpace d len) \<and>
         (ok \<longrightarrow> (\<exists>pos f. res = Some pos \<and> file_at c' pos = Some f \<and> m_useDiskFile f))) \<and>
      (len \<noteq> 0 \<and> fileId \<noteq> [] \<and> 0 \<le> sint offset \<longrightarrow>
         (if CreateDirectoryIfNotExists d \<and> IsSafeDiskSpace d len
          then falls_back_to_disk c (d_allocOk d) fileId offset len (map buf [0..<unat len])
                 dirTree opn (Write c d fileId offset len (Some buf) dirTree opn) \<and>
               (unat len \<le> length bs \<longrightarrow>
                  falls_back_to_disk c (d_allocOk d) fileId offset len (take (unat len) bs)
                    dirTree opn (WriteStream c d fileId offset len (Some bs) dirTree opn))
          else Write c d fileId offset len (Some buf) dirTree opn = Some (False, c, dirTree) \<and>
               WriteStream c d fileId offset len (Some bs) dirTree opn
                 = Some (False, c, dirTree))))"
proof (intro conjI ballI allI impI)
  fix x a k f ok c'
  assume x: "x \<in> set (m_cache c)" and "x = (a, k, Some f) \<and> File_IsOpen f"
    and fr: "Free c sz fu = Some (ok, c')"
  then have u: "unfreeable fu x" and k: "k = fst (snd x)" by (simp_all add: unfreeable_def)
  from Free_walk [OF fr] obtain j where j: "c' = evict_back c fu j" by blast
  show "x \<in> set (m_cache c')" using j unfreeable_kept [OF x u] by simp
  assume dist: "distinct (map (\<lambda>x. fst (snd x)) (m_cache c))"
  show "m_map c' k = m_map c k" using j k distinct_keys_not_evicted [OF dist x u] by simp
next
  fix x a k f ok c' d'
  assume x: "x \<in> set (m_cache c)" and "x = (a, k, Some f) \<and> File_IsOpen f"
    and fd: "FreeDiskCacheFiles c d sz fu = Some (ok, c', d')"
  then have u: "unfreeable fu x" and k: "k = fst (snd x)" by (simp_all add: unfreeable_def)
  from FreeDisk_walk [OF fd] obtain j where j: "c' = evict_back c fu j" by blast
  show "x \<in> set (m_cache c')" using j unfreeable_kept [OF x u] by simp
  assume dist: "distinct (map (\<lambda>x. fst (snd x)) (m_cache c))"
  show "m_map c' k = m_map c k" using j k distinct_keys_not_evicted [OF dist x u] by simp
next
  fix x a k f
  assume x: "x \<in> set (m_cache c)" and "x = (a, k, Some f) \<and> File_IsOpen f"
  then have u: "unfreeable fu x" and k: "k = fst (snd x)" by (simp_all add: unfreeable_def)
  from Free_reached_walk [of c sz fu] obtain j where j: "Free_reached c sz fu = evict_back c fu j"
    by blast
  from FreeDisk_reached_walk [of c d sz fu] obtain j' where
    j': "fst (FreeDiskCacheFiles_reached c d sz fu) = evict_back c fu j'"
    by auto
  show "x \<in> set (m_cache (Free_reached c sz fu))" using j unfreeable_kept [OF x u] by simp
  show "x \<in> set (m_cache (fst (FreeDiskCacheFiles_reached c d sz fu)))"
    using j' unfreeable_kept [OF x u] by simp
  show "\<And>j. x \<in> set (m_cache (evict_back c fu j))" using x u by (rule unfreeable_kept)
  assume dist: "distinct (map (\<lambda>x. fst (snd x)) (m_cache c))"
  show "m_map (Free_reached c sz fu) k = m_map c k"
    using j k distinct_keys_not_evicted [OF dist x u] by simp
  show "m_map (fst (FreeDiskCacheFiles_reached c d sz fu)) k = m_map c k"
    using j' k distinct_keys_not_evicted [OF dist x u] by simp
next
  fix ok c' assume "Free c sz fu = Some (ok, c')"
  then show "c' = Free_reached c sz fu" by (rule Free_reached_Some)
next
  assume n: "Free c sz fu = None"
  show "\<not> HasFreeSpace (Free_reached c sz fu) sz" using Free_None [OF n] by simp
  show "Suc (length (m_cache (Free_reached c sz fu))) = length (m_cache c)"
    using Free_None [OF n] by simp
next
  fix ok c' d' assume "FreeDiskCacheFiles c d sz fu = Some (ok, c', d')"
  then show "(c', d') = FreeDiskCacheFiles_reached c d sz fu" by (rule FreeDisk_reached_Some)
next
  assume n: "FreeDiskCacheFiles c d sz fu = None"
  show "\<not> IsSafeDiskSpace (snd (FreeDiskCacheFiles_reached c d sz fu)) sz"
    using FreeDisk_None [OF n] by simp
  show "Suc (length (m_cache (fst (FreeDiskCacheFiles_reached c d sz fu))))
          = length (m_cache c)"
    using FreeDisk_None [OF n] by simp
next
  assume a: "no_evictable fileId c \<and> \<not> HasFreeSpace c len \<and> entry_ok c fileId"
  then show fr: "Free c len fileId = Some (False, c)"
    using Free_no_evictable [of fileId c len] by simp
  have fd: "FreeDiskCacheFiles c d len fileId = Some (IsSafeDiskSpace d len, c, d)"
    using a FreeDisk_no_evictable by blast
  show "\<exists>ok res c' d'. PrepareWrite c d fileId len = Some ((ok, res), c', d') \<and>
         (ok \<longleftrightarrow> CreateDirectoryIfNotExists d \<and> IsSafeDiskSpace d len) \<and>
         (ok \<longrightarrow> (\<exists>pos f. res = Some pos \<and> file_at c' pos = Some f \<and> m_useDiskFile f))"
  proof (cases "CreateDirectoryIfNotExists d \<and> IsSafeDiskSpace d len")
    case True
    from a PrepareWrite_file_ok [of c fileId False] obtain pos f c' where
      "PrepareWrite_file c fileId False = Some (pos, c')"
      "file_at c' pos = Some f" "m_useDiskFile f = (\<not> False)"
      by blast
    then show ?thesis using a fr True by (subst PrepareWrite_unfold) auto
  next
    case False
    then show ?thesis using a fr fd by (subst PrepareWrite_unfold) auto
  qed
  assume v: "len \<noteq> 0 \<and> fileId \<noteq> [] \<and> 0 \<le> sint offset"
  show "if CreateDirectoryIfNotExists d \<and> IsSafeDiskSpace d len
          then falls_back_to_disk c (d_allocOk d) fileId offset len (map buf [0..<unat len])
                 dirTree opn (Write c d fileId offset len (Some buf) dirTree opn) \<and>
               (unat len \<le> length bs \<longrightarrow>
                  falls_back_to_disk c (d_allocOk d) fileId offset len (take (unat len) bs)
                    dirTree opn (WriteStream c d fileId offset len (Some bs) dirTree opn))
          else Write c d fileId offset len (Some buf) dirTree opn = Some (False, c, dirTree) \<and>
               WriteStream c d fileId offset len (Some bs) dirTree opn
                 = Some (False, c, dirTree)"
  proof (cases "CreateDirectoryIfNotExists d \<and> IsSafeDiskSpace d len")
    case True
    then have fb: "\<And>b. falls_back_to_disk c (d_allocOk d) fileId offset len
                       (map b [0..<unat len]) dirTree opn
                       (write_valid c d fileId offset len b dirTree opn)"
      using a write_valid_falls_back by blast
    have "falls_back_to_disk c (d_allocOk d) fileId offset len (take (unat len) bs)
            dirTree opn (WriteStream c d fileId offset len (Some bs) dirTree opn)"
      if "unat len \<le> length bs"
      using fb [of "\<lambda>i. bs ! i"] v that by (simp add: WriteStream_def map_nth_take)
    then show ?thesis using True v fb [of buf] by (simp add: Write_def)
  next
    case False
    then have "\<And>b. write_valid c d fileId offset len b dirTree opn = Some (False, c, dirTree)"
      using a write_valid_no_disk by blast
    then show ?thesis using False v by (auto simp: Write_def WriteStream_def)
  qed
qed

lemma ex_cache_b:
  "(1, ''b'', Some ex_file_b) \<in> set (m_cache ex_cache)" "File_IsOpen ex_file_b"
  "distinct (map (\<lambda>x. fst (snd x)) (m_cache ex_cache))" "m_map ex_cache ''b'' = Some 1"
  by (simp_all add: ex_cache_def File_IsOpen_def ex_file_b_def)

lemma ex_cache_open_facts:
  "no_evictable ''c'' ex_cache_open" "\<not> HasFreeSpace ex_cache_open 5"
  by (simp_all add: no_evictable_def HasFreeSpace_def ex_cache_open_def)

lemma ex_cache_open_c:
  "file_pages ex_cache_open ''c'' = []" "m_size ex_cache_open = 7"
  "\<not> HasFreeSpace ex_cache_open 20"
  by (simp_all add: file_pages_def ex_cache_open_def HasFreeSpace_def)

lemma ex_src: "map (\<lambda>i. 65) [0..<5] = [65, 65, 65, 65, 65 :: byte]"
  by (simp add: upt_rec)

lemma Free_reached_ex_cache_5:
  "m_cache (Free_reached ex_cache 5 ''c'') = [(1, ''b'', Some ex_file_b)]"
  by (simp add: Free_reached_def ex_cache_def HasFreeSpace_def erase_index_def File_IsOpen_def
        File_GetCachedSize_def ex_file_a_def)

lemma falls_back_to_disk_result:
  assumes "falls_back_to_disk c allocOk fileId offset len src dirTree opn r"
  shows "\<exists>success c' t'. r = Some (success, c', t') \<and>
           success = (allocOk \<or>
                     pages_on_disk (write_pages True True (file_pages c fileId) (unat offset) src)
                       \<le> pages_on_disk (file_pages c fileId)) \<and>
           m_size c' = m_size c \<and>
           file_pages c' fileId = write_pages success True (file_pages c fileId) (unat offset) src"
proof -
  from assms obtain success c' t' where r: "r = Some (success, c', t')"
    by (cases r) (auto simp: falls_back_to_disk_def)
  from assms obtain pos f' where "m_map c' fileId = Some pos" "file_at c' pos = Some f'"
    "m_pages f' = write_pages success True (file_pages c fileId) (unat offset) src"
    unfolding r falls_back_to_disk_def by (auto split: option.splits)
  then have "file_pages c' fileId
               = write_pages success True (file_pages c fileId) (unat offset) src"
    by (simp add: file_pages_def [of c'])
  then show ?thesis using assms unfolding r falls_back_to_disk_def by simp
qed

lemma falls_back_ex:
  assumes "falls_back_to_disk ex_cache_open True ''c'' 0 len src ex_tree False r" "src \<noteq> []"
  shows "\<exists>c' t'. r = Some (True, c', t') \<and> m_size c' = 7 \<and>
           file_pages c' ''c'' = [Page 0 (OnDisk src)]"
  using falls_back_to_disk_result [OF assms(1)] assms(2)
  by (auto simp: ex_cache_open_c new_page_def)


lemma ex_cache_open_stuck:
  "no_evictable ''c'' ex_cache_open \<and> \<not> HasFreeSpace ex_cache_open 5 \<and>
   entry_ok ex_cache_open ''c''"
  "no_evictable ''c'' ex_cache_open \<and> \<not> HasFreeSpace ex_cache_open 20 \<and>
   entry_ok ex_cache_open ''c''"
  "(1, ''b'', Some ex_file_b) = (1, ''b'', Some ex_file_b) \<and> File_IsOpen ex_file_b"
  "(5 :: size_t) \<noteq> 0 \<and> ''c'' \<noteq> [] \<and> 0 \<le> sint (0 :: size_t)"
  "(20 :: size_t) \<noteq> 0 \<and> ''c'' \<noteq> [] \<and> 0 \<le> sint (0 :: size_t)"
  using ex_cache_open_facts entry_ok_ex_c(2) ex_cache_open_c(3) ex_cache_b(2) by simp_all

theorem eviction_spares_open_files_witness:
  "(\<exists>c'. Free ex_cache 2 ''c'' = Some (True, c') \<and>
      m_cache c' = [(1, ''b'', Some ex_file_b)] \<and> m_map c' ''b'' = Some 1) \<and>
   (\<exists>c' d'. FreeDiskCacheFiles ex_cache ex_disk_tight 20 ''c'' = Some (True, c', d') \<and>
      m_cache c' = [(1, ''b'', Some ex_file_b)] \<and> m_map c' ''b'' = Some 1) \<and>
   Free ex_cache_open 5 ''c'' = Some (False, ex_cache_open) \<and>
   (\<exists>pos f c' d'. PrepareWrite ex_cache_open ex_disk ''c'' 5 = Some ((True, Some pos), c', d') \<and>
       file_at c' pos = Some f \<and> m_useDiskFile f) \<and>
   Free ex_cache 5 ''c'' = None \<and>
   (1, ''b'', Some ex_file_b) \<in> set (m_cache (Free_reached ex_cache 5 ''c'')) \<and>
   m_map (Free_reached ex_cache 5 ''c'') ''b'' = Some 1 \<and>
   (\<exists>c' t'. Write ex_cache_open ex_disk ''c'' 0 5 (Some (\<lambda>i. 65)) ex_tree False
               = Some (True, c', t') \<and>
      m_size c' = 7 \<and> file_pages c' ''c'' = [Page 0 (OnDisk [65, 65, 65, 65, 65])]) \<and>
   (\<exists>c' t'. WriteStream ex_cache_open ex_disk ''c'' 0 5 (Some [7, 8, 9, 10, 11, 12]) ex_tree False
               = Some (True, c', t') \<and>
      m_size c' = 7 \<and> file_pages c' ''c'' = [Page 0 (OnDisk [7, 8, 9, 10, 11])]) \<and>
   Write ex_cache_open ex_disk_tight ''c'' 0 20 (Some (\<lambda>i. 65)) ex_tree False
     = Some (False, ex_cache_open, ex_tree) \<and>
   \<not> HasFreeSpace (Free_reached ex_cache 5 ''c'') 5"
proof -
  note undef5 = eviction_spares_open_files
    [where c = ex_cache and sz = 5 and fu = "''c''",
     THEN conjunct2, THEN conjunct1, THEN conjunct2, THEN mp, OF Free_ex_cache_5]
  note free2 = eviction_spares_open_files
    [where c = ex_cache and sz = 2 and fu = "''c''",
     THEN conjunct1, THEN bspec, OF ex_cache_b(1), THEN spec, THEN spec, THEN spec, THEN mp,
     OF ex_cache_open_stuck(3), THEN conjunct1, THEN spec, THEN spec, THEN mp,
     OF Free_ex_cache_2]
  note disk20 = eviction_spares_open_files
    [where c = ex_cache and sz = 20 and fu = "''c''" and d = ex_disk_tight,
     THEN conjunct1, THEN bspec, OF ex_cache_b(1), THEN spec, THEN spec, THEN spec, THEN mp,
     OF ex_cache_open_stuck(3), THEN conjunct2, THEN conjunct1, THEN spec, THEN spec, THEN spec,
     THEN mp, OF FreeDisk_ex_cache_tight]
  note reached5 = eviction_spares_open_files
    [where c = ex_cache and sz = 5 and fu = "''c''",
     THEN conjunct1, THEN bspec, OF ex_cache_b(1), THEN spec, THEN spec, THEN spec, THEN mp,
     OF ex_cache_open_stuck(3), THEN conjunct2, THEN conjunct2]
  note stuck5 = eviction_spares_open_files
    [where c = ex_cache_open and fileId = "''c''" and len = 5 and d = ex_disk
       and offset = 0 and buf = "\<lambda>i. 65" and bs = "[7, 8, 9, 10, 11, 12]" and dirTree = ex_tree
       and opn = False,
     THEN conjunct2, THEN conjunct2, THEN conjunct2, THEN mp, OF ex_cache_open_stuck(1)]
  note stuck20 = eviction_spares_open_files
    [where c = ex_cache_open and fileId = "''c''" and len = 20 and d = ex_disk_tight
       and offset = 0 and buf = "\<lambda>i. 65" and dirTree = ex_tree and opn = False,
     THEN conjunct2, THEN conjunct2, THEN conjunct2, THEN mp, OF ex_cache_open_stuck(2)]
  note write5 = stuck5 [THEN conjunct2, THEN conjunct2, THEN mp, OF ex_cache_open_stuck(4)]
  note write20 = stuck20 [THEN conjunct2, THEN conjunct2, THEN mp, OF ex_cache_open_stuck(5)]
  have 1: "\<exists>c'. Free ex_cache 2 ''c'' = Some (True, c') \<and>
      m_cache c' = [(1, ''b'', Some ex_file_b)] \<and> m_map c' ''b'' = Some 1"
    using free2 ex_cache_b(3,4) by (simp add: Free_ex_cache_2)
  have 2: "\<exists>c' d'. FreeDiskCacheFiles ex_cache ex_disk_tight 20 ''c'' = Some (True, c', d') \<and>
      m_cache c' = [(1, ''b'', Some ex_file_b)] \<and> m_map c' ''b'' = Some 1"
    using disk20 ex_cache_b(3,4) by (simp add: FreeDisk_ex_cache_tight)
  have 3: "Free ex_cache_open 5 ''c'' = Some (False, ex_cache_open)"
    using stuck5 by (rule conjunct1)
  have 4: "\<exists>pos f c' d'. PrepareWrite ex_cache_open ex_disk ''c'' 5
             = Some ((True, Some pos), c', d') \<and> file_at c' pos = Some f \<and> m_useDiskFile f"
    using stuck5 [THEN conjunct2, THEN conjunct1] ex_disk_safe(1,2) by auto
  have 5: "(1, ''b'', Some ex_file_b) \<in> set (m_cache (Free_reached ex_cache 5 ''c''))"
    using reached5 by (rule conjunct1)
  have 6: "m_map (Free_reached ex_cache 5 ''c'') ''b'' = Some 1"
    using reached5 [THEN conjunct2, THEN conjunct2, THEN conjunct1] ex_cache_b(3,4) by simp
  have safe: "CreateDirectoryIfNotExists ex_disk \<and> IsSafeDiskSpace ex_disk 5"
    using ex_disk_safe(1,2) by simp
  have "falls_back_to_disk ex_cache_open True ''c'' 0 5 [65, 65, 65, 65, 65] ex_tree False
          (Write ex_cache_open ex_disk ''c'' 0 5 (Some (\<lambda>i. 65)) ex_tree False)"
    using write5 safe ex_disk_safe(6) by (simp add: ex_src)
  from falls_back_ex [OF this] have 7:
    "\<exists>c' t'. Write ex_cache_open ex_disk ''c'' 0 5 (Some (\<lambda>i. 65)) ex_tree False
               = Some (True, c', t') \<and>
      m_size c' = 7 \<and> file_pages c' ''c'' = [Page 0 (OnDisk [65, 65, 65, 65, 65])]"
    by simp
  have "falls_back_to_disk ex_cache_open True ''c'' 0 5 [7, 8, 9, 10, 11] ex_tree False
          (WriteStream ex_cache_open ex_disk ''c'' 0 5 (Some [7, 8, 9, 10, 11, 12]) ex_tree False)"
    using write5 safe ex_disk_safe(6) by simp
  from falls_back_ex [OF this] have 8:
    "\<exists>c' t'. WriteStream ex_cache_open ex_disk ''c'' 0 5 (Some [7, 8, 9, 10, 11, 12]) ex_tree False
               = Some (True, c', t') \<and>
      m_size c' = 7 \<and> file_pages c' ''c'' = [Page 0 (OnDisk [7, 8, 9, 10, 11])]"
    by simp
  have 9: "Write ex_cache_open ex_disk_tight ''c'' 0 20 (Some (\<lambda>i. 65)) ex_tree False
     = Some (False, ex_cache_open, ex_tree)"
    using write20 ex_disk_safe(3) by simp
  have 10: "\<not> HasFreeSpace (Free_reached ex_cache 5 ''c'') 5"
    using undef5 by (rule conjunct1)
  show ?thesis using 1 2 3 4 5 6 7 8 9 10 Free_ex_cache_5 by blast
qed

subsection \<open>Zero-length writes\<close>

text \<open>C9: a write of length 0 returns success and transfers no byte, whatever the offset
  and the buffer are.  If the file id has no index entry, a node with a new empty File is
  put in front of the order and indexed; nothing else changes.  If it has one, its node is
  moved to the front of the order, the most recently used position, and the other nodes
  keep their order; no File, the size counter and the directory tree do not change.\<close>

theorem Write_zero_length:
  "(m_map c fileId = None \<longrightarrow>
      Write c d fileId offset 0 buffer dirTree opn =
        Some (True,
              c\<lparr>m_cache := (m_next c, fileId, Some (File_new fileId)) # m_cache c,
                m_next := Suc (m_next c), m_map := (m_map c)(fileId \<mapsto> m_next c)\<rparr>,
              dirTree) \<and>
      m_pages (File_new fileId) = []) \<and>
   (\<forall>pos e. m_map c fileId = Some pos \<and> node_at c pos = Some e \<longrightarrow>
      Write c d fileId offset 0 buffer dirTree opn =
        Some (True, c\<lparr>m_cache := (pos, e) # list_erase pos (m_cache c)\<rparr>, dirTree))"
  by (simp add: Write_def UnguardedNewEmptyFile_def UnguardedMakeFileMostRecentlyUsed_def
        Let_def File_new_def)

theorem Write_zero_length_witness:
  "Write ex_cache ex_disk ''a'' 7 0 None None False =
     Some (True, ex_cache\<lparr>m_cache := [(0, ''a'', Some ex_file_a), (1, ''b'', Some ex_file_b)]\<rparr>,
           None) \<and>
   Write ex_cache ex_disk ''c'' 7 0 None None False =
     Some (True,
           ex_cache\<lparr>m_cache := [(2, ''c'', Some (File_new ''c'')), (1, ''b'', Some ex_file_b),
                                  (0, ''a'', Some ex_file_a)],
                    m_next := 3, m_map := (m_map ex_cache)(''c'' \<mapsto> 2)\<rparr>, None)"
proof -
  have a: "m_map ex_cache ''a'' = Some 0 \<and> node_at ex_cache 0 = Some (''a'', Some ex_file_a)"
    by (simp add: ex_cache_def node_at_def)
  have c: "m_map ex_cache ''c'' = None" by (simp add: ex_cache_def)
  have e: "list_erase 0 (m_cache ex_cache) = [(1, ''b'', Some ex_file_b)]"
    "m_next ex_cache = 2" "m_cache ex_cache = [(1, ''b'', Some ex_file_b), (0, ''a'', Some ex_file_a)]"
    by (simp_all add: ex_cache_def list_erase_def)
  show ?thesis
    using Write_zero_length [of ex_cache "''a''" ex_disk 7 None None False] a
      Write_zero_length [of ex_cache "''c''" ex_disk 7 None None False] c
    by (simp add: e list_erase_def)
qed

subsection \<open>MakeFile\<close>

text \<open>C4, as stated, fails where the file id is already present: \<open>MakeFile\<close> returns the
  null pointer there, not the File the cache holds (which \<open>FindFile\<close> returns).\<close>

theorem MakeFile_present_counterexample:
  "HasFile (fst (MakeFile (Cache_new 10) ''a'')) ''a'' \<and>
   map_option snd (FindFile (fst (MakeFile (Cache_new 10) ''a'')) ''a'')
     = Some (Some (File_new ''a'')) \<and>
   snd (MakeFile (fst (MakeFile (Cache_new 10) ''a'')) ''a'') = None"
  by (simp add: MakeFile_def UnguardedNewEmptyFile_def Cache_new_def file_at_def node_at_def
      HasFile_def FindFile_def UnguardedMakeFileMostRecentlyUsed_def list_erase_def)

text \<open>C4, amended: \<open>MakeFile(fileId)\<close> creates a new empty File in front of the order,
  indexes it and returns it when the file id is absent; when the file id is present it
  returns the null pointer, and the index, the size counter and the nodes the order had
  are as before.\<close>

theorem MakeFile_absent_creates_present_null:
  "(\<not> HasFile c fileId \<longrightarrow>
      MakeFile c fileId =
        (c\<lparr>m_cache := (m_next c, fileId, Some (File_new fileId)) # m_cache c,
           m_next := Suc (m_next c), m_map := (m_map c)(fileId \<mapsto> m_next c)\<rparr>,
         Some (File_new fileId)) \<and>
      m_pages (File_new fileId) = []) \<and>
   (HasFile c fileId \<longrightarrow>
      snd (MakeFile c fileId) = None \<and>
      m_map (fst (MakeFile c fileId)) = m_map c \<and>
      m_size (fst (MakeFile c fileId)) = m_size c \<and>
      set (m_cache c) \<subseteq> set (m_cache (fst (MakeFile c fileId))))"
  by (auto simp: MakeFile_def UnguardedNewEmptyFile_def HasFile_def file_at_def node_at_def
        Let_def File_new_def)

theorem MakeFile_absent_creates_present_null_witness:
  "MakeFile ex_cache ''c'' =
     (ex_cache\<lparr>m_cache := (2, ''c'', Some (File_new ''c'')) # m_cache ex_cache,
               m_next := 3, m_map := (m_map ex_cache)(''c'' \<mapsto> 2)\<rparr>,
      Some (File_new ''c'')) \<and>
   snd (MakeFile ex_cache ''a'') = None \<and>
   m_map (fst (MakeFile ex_cache ''a'')) = m_map ex_cache"
proof -
  have "\<not> HasFile ex_cache ''c''" "HasFile ex_cache ''a''" "m_next ex_cache = 2"
    by (simp_all add: HasFile_def ex_cache_def)
  then show ?thesis
    using MakeFile_absent_creates_present_null [of ex_cache "''c''"]
      MakeFile_absent_creates_present_null [of ex_cache "''a''"]
    by simp
qed

subsection \<open>Write\<close>

lemma PrepareWrite_file_size:
  "PrepareWrite_file c fileId avail = Some (pos, c') \<Longrightarrow> m_size c' = m_size c"
  by (auto simp: PrepareWrite_file_def UnguardedMakeFileMostRecentlyUsed_def
        UnguardedNewEmptyFile_def Let_def split: option.splits prod.splits if_splits)

lemma PrepareWrite_size:
  assumes "PrepareWrite c d fileId len = Some (r, c1, d1)"
  shows "\<exists>j j'. m_size c1 = m_size (evict_back (evict_back c fileId j) fileId j')"
proof -
  have all: "\<And>x. evict_back x fileId (length (m_cache x)) = x" by simp
  have "m_size c1 = m_size c \<or>
        (\<exists>ok1 cF. Free c len fileId = Some (ok1, cF) \<and>
           (m_size c1 = m_size cF \<or>
            (\<exists>ok2 cD dD. FreeDiskCacheFiles cF d len fileId = Some (ok2, cD, dD) \<and>
               m_size c1 = m_size cD)))"
    using assms
    by (subst (asm) PrepareWrite_unfold)
       (auto split: if_splits option.splits prod.splits dest!: PrepareWrite_file_size)
  then consider "m_size c1 = m_size c"
    | ok1 cF where "Free c len fileId = Some (ok1, cF)" "m_size c1 = m_size cF"
    | ok1 cF ok2 cD dD where "Free c len fileId = Some (ok1, cF)"
        "FreeDiskCacheFiles cF d len fileId = Some (ok2, cD, dD)" "m_size c1 = m_size cD"
    by blast
  then show ?thesis
  proof cases
    case 1
    then show ?thesis using all [of c] by metis
  next
    case 2
    from Free_walk [OF 2(1)] obtain j where "cF = evict_back c fileId j" by blast
    then show ?thesis using 2(2) all [of cF] by metis
  next
    case 3
    from Free_walk [OF 3(1)] obtain j where "cF = evict_back c fileId j" by blast
    moreover from FreeDisk_walk [OF 3(2)] obtain j' where "cD = evict_back cF fileId j'"
      by blast
    ultimately show ?thesis using 3(3) by metis
  qed
qed

text \<open>C7, amended: take a write with \<open>len > 0\<close> and valid input for which \<open>PrepareWrite\<close>
  has succeeded.  If the File's write reports failure, \<open>Write\<close> returns false, the
  directory tree is as before and the size counter is not incremented: it has the value
  \<open>PrepareWrite\<close> left, which is the old value less the cached sizes of the Files evicted
  to make room.  If the File's write reports success, \<open>Write\<close> returns true, the size
  counter is that value plus the in-memory delta reported, and the Node of the file id, if
  the tree has one, gets the size \<open>offset + len\<close> where that exceeds its old size, and the
  open state.\<close>

theorem Write_counter_and_meta_follow_File_write:
  assumes "len \<noteq> 0" "fileId \<noteq> []" "0 \<le> sint offset"
    and "PrepareWrite c d fileId len = Some ((True, Some pos), c1, d1)"
    and "file_at c1 pos = Some file"
    and "File_Write (d_allocOk d1) file (unat offset) (unat len) buf opn
           = ((success, added, addedDisk), file')"
  shows "\<exists>c' t'. Write c d fileId offset len (Some buf) dirTree opn = Some (success, c', t') \<and>
           (\<not> success \<longrightarrow> m_size c' = m_size c1 \<and> t' = dirTree) \<and>
           (success \<longrightarrow> m_size c' = m_size c1 + added \<and>
              (dirTree = None \<longrightarrow> t' = None) \<and>
              (\<forall>t. dirTree = Some t \<and> t fileId = None \<longrightarrow> t' = Some t) \<and>
              (\<forall>t node. dirTree = Some t \<and> t fileId = Some node \<longrightarrow>
                 t' = Some (t(fileId \<mapsto>
                        node\<lparr>n_fileSize := (if offset + len > n_fileSize node then offset + len
                                             else n_fileSize node),
                             n_fileOpen := opn\<rparr>)))) \<and>
           (\<exists>j j'. m_size c1 = m_size (evict_back (evict_back c fileId j) fileId j'))"
  using assms PrepareWrite_size [OF assms(4)]
  by (auto simp: Write_def write_valid_def update_meta_def Let_def)

lemma ex_cache_c [simp]: "m_map ex_cache ''c'' = None" "m_next ex_cache = 2"
  by (simp_all add: ex_cache_def)

lemma PrepareWrite_ex_spill:
  "\<exists>c1 d1. PrepareWrite ex_cache ex_disk_tight ''c'' 20 = Some ((True, Some 2), c1, d1) \<and>
        \<not> d_allocOk d1 \<and> m_size c1 = 7 \<and>
        file_at c1 2 = Some ((File_new ''c'')\<lparr>m_useDiskFile := True\<rparr>)"
  by (subst PrepareWrite_unfold)
     (simp add: Free_ex_cache_20 FreeDisk_ex_cache_tight ex_disk_safe PrepareWrite_file_new
        file_at_def node_at_def)

lemma PrepareWrite_ex_memory:
  "\<exists>c1. PrepareWrite ex_cache ex_disk ''c'' 2 = Some ((True, Some 2), c1, ex_disk) \<and>
        m_size c1 = 7 \<and> file_at c1 2 = Some ((File_new ''c'')\<lparr>m_useDiskFile := False\<rparr>)"
  by (subst PrepareWrite_unfold)
     (simp add: Free_ex_cache_2 PrepareWrite_file_new file_at_def node_at_def)

lemma File_Write_ex_spill:
  "File_Write False ((File_new ''c'')\<lparr>m_useDiskFile := True\<rparr>) 0 20 (\<lambda>i. 65) False
     = ((False, 0, 0), (File_new ''c'')\<lparr>m_useDiskFile := True\<rparr>)"
  by (simp add: File_Write_def File_new_def new_page_def pages_on_disk_def pages_cached_def
        page_in_memory_def page_size_def)

lemma File_Write_ex_memory:
  "File_Write True ((File_new ''c'')\<lparr>m_useDiskFile := False\<rparr>) 0 2 (\<lambda>i. 65) False
     = ((True, 2, 0), (File_new ''c'')\<lparr>m_pages := [Page 0 (InMemory [65, 65])]\<rparr>)"
  by (simp add: File_Write_def File_new_def new_page_def pages_on_disk_def pages_cached_def
        page_in_memory_def page_size_def upt_rec)

text \<open>C7, as stated, fails: a write whose File write fails can change the size counter.
  The cache of capacity 10 is full with the open File \<open>b\<close> (7 bytes) and the closed File
  \<open>a\<close> (3 bytes in memory, one on disk), and the disk is one byte short of safe space.
  A write of 20 bytes to \<open>c\<close> exceeds the capacity, so \<open>Free\<close> fails at once;
  \<open>FreeDiskCacheFiles\<close> evicts \<open>a\<close>, which makes the disk space safe; the File's write
  then fails to allocate its disk page.  \<open>Write\<close> returns false and the counter has gone
  from 10 to 7.\<close>

theorem Write_failed_counter_changed_counterexample:
  "\<exists>c' t'. Write ex_cache ex_disk_tight ''c'' 0 20 (Some (\<lambda>i. 65)) ex_tree False
             = Some (False, c', t') \<and>
           m_size ex_cache = 10 \<and> m_size c' = 7"
proof -
  from PrepareWrite_ex_spill obtain c1 d1 where
    "PrepareWrite ex_cache ex_disk_tight ''c'' 20 = Some ((True, Some 2), c1, d1)"
    "\<not> d_allocOk d1" "m_size c1 = 7"
    "file_at c1 2 = Some ((File_new ''c'')\<lparr>m_useDiskFile := True\<rparr>)"
    by blast
  then show ?thesis
    by (simp add: Write_def write_valid_def File_Write_ex_spill)
qed

theorem Write_counter_and_meta_follow_File_write_witness:
  "(\<exists>c'. Write ex_cache ex_disk_tight ''c'' 0 20 (Some (\<lambda>i. 65)) ex_tree False
           = Some (False, c', ex_tree) \<and> m_size c' = 7) \<and>
   (\<exists>c'. Write ex_cache ex_disk ''c'' 0 2 (Some (\<lambda>i. 65)) ex_tree False
           = Some (True, c', Some [''c'' \<mapsto> \<lparr>n_fileSize = 2, n_fileOpen = False\<rparr>]) \<and>
         m_size c' = 9)"
proof
  from PrepareWrite_ex_spill obtain c1 d1 where c1:
    "PrepareWrite ex_cache ex_disk_tight ''c'' 20 = Some ((True, Some 2), c1, d1)"
    "\<not> d_allocOk d1" "m_size c1 = 7"
    "file_at c1 2 = Some ((File_new ''c'')\<lparr>m_useDiskFile := True\<rparr>)"
    by blast
  have w: "File_Write (d_allocOk d1) ((File_new ''c'')\<lparr>m_useDiskFile := True\<rparr>)
             (unat (0 :: size_t)) (unat (20 :: size_t)) (\<lambda>i. 65) False
           = ((False, 0, 0), (File_new ''c'')\<lparr>m_useDiskFile := True\<rparr>)"
    using c1(2) by (simp add: File_Write_ex_spill)
  show "\<exists>c'. Write ex_cache ex_disk_tight ''c'' 0 20 (Some (\<lambda>i. 65)) ex_tree False
           = Some (False, c', ex_tree) \<and> m_size c' = 7"
    using Write_counter_and_meta_follow_File_write [OF _ _ _ c1(1) c1(4) w, of ex_tree] c1(3)
    by auto
next
  from PrepareWrite_ex_memory obtain c1 where c1:
    "PrepareWrite ex_cache ex_disk ''c'' 2 = Some ((True, Some 2), c1, ex_disk)"
    "m_size c1 = 7" "file_at c1 2 = Some ((File_new ''c'')\<lparr>m_useDiskFile := False\<rparr>)"
    by blast
  have w: "File_Write (d_allocOk ex_disk) ((File_new ''c'')\<lparr>m_useDiskFile := False\<rparr>)
             (unat (0 :: size_t)) (unat (2 :: size_t)) (\<lambda>i. 65) False
           = ((True, 2, 0), (File_new ''c'')\<lparr>m_pages := [Page 0 (InMemory [65, 65])]\<rparr>)"
    by (simp add: ex_disk_safe File_Write_ex_memory)
  show "\<exists>c'. Write ex_cache ex_disk ''c'' 0 2 (Some (\<lambda>i. 65)) ex_tree False
           = Some (True, c', Some [''c'' \<mapsto> \<lparr>n_fileSize = 2, n_fileOpen = False\<rparr>]) \<and>
         m_size c' = 9"
    using Write_counter_and_meta_follow_File_write [OF _ _ _ c1(1) c1(3) w, of ex_tree] c1(2)
    by (auto simp: ex_tree_def)
qed

subsection \<open>Rename\<close>

lemma list_erase_set_key [simp]: "list_erase pos (set_key pos k xs) = list_erase pos xs"
  by (induction pos k xs rule: set_key.induct) (auto simp: list_erase_def)

lemma Rename_absent_target:
  assumes "oldFileId \<noteq> newFileId" "m_map c oldFileId = Some pa"
    "node_at c pa = Some (oldFileId, Some fa)" "m_map c newFileId = None"
  shows "Rename c oldFileId newFileId =
           Some (c\<lparr>m_cache := (pa, newFileId, Some (File_Rename newFileId fa))
                                # list_erase pa (m_cache c),
                   m_map := (m_map c)(newFileId \<mapsto> pa, oldFileId := None)\<rparr>)"
  using assms
  by (simp add: Rename_def UnguardedMakeFileMostRecentlyUsed_def file_at_def node_at_def)

lemma Rename_present_target:
  assumes "oldFileId \<noteq> newFileId" "m_map c oldFileId = Some pa"
    "node_at c pa = Some (oldFileId, Some fa)" "m_map c newFileId = Some pb"
    "node_at c pb = Some (newFileId, Some fb)"
  shows "Rename c oldFileId newFileId =
           Some (c\<lparr>m_size := m_size c - File_GetCachedSize fb,
                   m_cache := (pa, newFileId, Some (File_Rename newFileId fa))
                                # list_erase pa (list_erase pb (m_cache c)),
                   m_map := (m_map c)(newFileId \<mapsto> pa, oldFileId := None)\<rparr>)"
proof -
  have "pa \<noteq> pb" using assms by auto
  then show ?thesis using assms
    by (simp add: Rename_def UnguardedErase_def UnguardedMakeFileMostRecentlyUsed_def
          file_at_def node_at_def)
qed

text \<open>C6: let \<open>oldFileId\<close> and \<open>newFileId\<close> be distinct, \<open>oldFileId\<close> be in the cache
  (its index entry points to a node with this key and a File \<open>fa\<close>) and the index entry of
  \<open>newFileId\<close>, if any, be sound.  Then \<open>Rename\<close> erases the node and the index entry of
  \<open>newFileId\<close> if there is one, subtracting its cached size; the node of \<open>oldFileId\<close> gets
  the key \<open>newFileId\<close> and is moved to the front of the order; its File is renamed and
  indexed under \<open>newFileId\<close>.  Afterwards \<open>HasFile(oldFileId)\<close> is false,
  \<open>HasFile(newFileId)\<close> is true, and the File under \<open>newFileId\<close> has the pages of \<open>fa\<close>,
  so the same byte at every offset.\<close>

theorem Rename_moves_file:
  assumes "oldFileId \<noteq> newFileId" "m_map c oldFileId = Some pa"
    "node_at c pa = Some (oldFileId, Some fa)" "entry_ok c newFileId"
  shows "\<exists>c' f'. Rename c oldFileId newFileId = Some c' \<and>
           \<not> HasFile c' oldFileId \<and> HasFile c' newFileId \<and>
           m_map c' newFileId = Some pa \<and> file_at c' pa = Some f' \<and>
           f' = File_Rename newFileId fa \<and> m_fileId f' = newFileId \<and>
           m_pages f' = m_pages fa \<and>
           (\<forall>i. pages_byte (m_pages f') i = pages_byte (m_pages fa) i) \<and>
           m_cache c' =
             (pa, newFileId, Some f')
               # list_erase pa (case m_map c newFileId of
                                 None \<Rightarrow> m_cache c
                               | Some pb \<Rightarrow> list_erase pb (m_cache c)) \<and>
           m_size c' =
             (case m_map c newFileId of
                None \<Rightarrow> m_size c
              | Some pb \<Rightarrow> m_size c - node_cached (pb, newFileId, file_at c pb)) \<and>
           (\<forall>k. k \<noteq> oldFileId \<and> k \<noteq> newFileId \<longrightarrow> m_map c' k = m_map c k)"
proof (cases "m_map c newFileId")
  case None
  show ?thesis
    unfolding Rename_absent_target [OF assms(1-3) None]
    using assms(1) None
    by (simp add: HasFile_def file_at_def node_at_def File_Rename_def)
next
  case (Some pb)
  with assms(4) obtain fb where fb: "node_at c pb = Some (newFileId, Some fb)"
    by (auto simp: entry_ok_def split: option.splits)
  show ?thesis
    unfolding Rename_present_target [OF assms(1-3) Some fb]
    using assms(1) Some fb
    by (simp add: HasFile_def file_at_def node_at_def File_Rename_def node_cached_def)
qed


theorem Rename_moves_file_witness:
  "\<exists>c'. Rename ex_cache ''a'' ''b'' = Some c' \<and> \<not> HasFile c' ''a'' \<and> HasFile c' ''b'' \<and>
      m_cache c' = [(0, ''b'', Some (ex_file_a\<lparr>m_fileId := ''b''\<rparr>))] \<and>
      m_pages (ex_file_a\<lparr>m_fileId := ''b''\<rparr>)
        = [Page 0 (InMemory [1, 2, 3]), Page 3 (OnDisk [4])] \<and>
      m_size c' = 3"
proof -
  have h: "''a'' \<noteq> ''b''" "m_map ex_cache ''a'' = Some 0"
    "node_at ex_cache 0 = Some (''a'', Some ex_file_a)" "entry_ok ex_cache ''b''"
    by (simp_all add: ex_cache_def node_at_def entry_ok_def)
  have e: "m_map ex_cache ''b'' = Some 1"
    "node_cached (Suc 0, ''b'', file_at ex_cache (Suc 0)) = 7"
    "list_erase 0 (list_erase (Suc 0) (m_cache ex_cache)) = []"
    by (simp_all add: ex_cache_def file_at_def node_at_def list_erase_def)
  from Rename_moves_file [OF h] obtain c' where
    "Rename ex_cache ''a'' ''b'' = Some c'" "\<not> HasFile c' ''a''" "HasFile c' ''b''"
    "m_cache c' = (0, ''b'', Some (File_Rename ''b'' ex_file_a))
               # list_erase 0 (case m_map ex_cache ''b'' of None \<Rightarrow> m_cache ex_cache
                               | Some pb \<Rightarrow> list_erase pb (m_cache ex_cache))"
    "m_size c' = (case m_map ex_cache ''b'' of None \<Rightarrow> m_size ex_cache
                  | Some pb \<Rightarrow> m_size ex_cache - node_cached (pb, ''b'', file_at ex_cache pb))"
    by blast
  then show ?thesis
    by (simp add: e File_Rename_def) (simp add: ex_file_a_def)
qed

subsection \<open>The order and the index\<close>

text \<open>C5 fails in the code: \<open>MakeFile\<close> on a file id that is already present pushes a
  second node with this key to the front of the order, and \<open>emplace\<close> does not index
  it.  After \<open>MakeFile("a")\<close> twice on an empty cache the order has two nodes with key
  \<open>a\<close>, the index lists the older one, and the node in front has no index entry.\<close>

theorem MakeFile_twice_leaves_unindexed_node:
  "m_cache (fst (MakeFile (fst (MakeFile (Cache_new 10) ''a'')) ''a''))
     = [(1, ''a'', Some (File_new ''a'')), (0, ''a'', Some (File_new ''a''))] \<and>
   m_map (fst (MakeFile (fst (MakeFile (Cache_new 10) ''a'')) ''a'')) ''a'' = Some 0 \<and>
   \<not> order_indexed (fst (MakeFile (fst (MakeFile (Cache_new 10) ''a'')) ''a''))"
  by (simp add: MakeFile_def UnguardedNewEmptyFile_def Cache_new_def order_indexed_def)

subsection \<open>The size counter\<close>

lemma new_a: "UnguardedNewEmptyFile (Cache_new 10) ''a'' = (ex_cache_new, Some 0)"
  by (simp add: UnguardedNewEmptyFile_def Cache_new_def ex_cache_new_def)

lemma ex_cache_new_facts:
  "m_map ex_cache_new ''a'' = Some 0" "node_at ex_cache_new 0 = Some (''a'', Some (File_new ''a''))"
  "HasFreeSpace ex_cache_new 2" "file_at ex_cache_new 0 = Some (File_new ''a'')"
  "list_erase 0 (m_cache ex_cache_new) = []" "m_size ex_cache_new = 0"
  by (simp_all add: ex_cache_new_def node_at_def file_at_def HasFreeSpace_def list_erase_def)

lemma PrepareWrite_ex_new:
  "PrepareWrite ex_cache_new ex_disk ''a'' 2
     = Some ((True, Some 0), ex_cache_new, ex_disk)"
proof -
  have "(File_new ''a'')\<lparr>m_useDiskFile := False\<rparr> = File_new ''a''"
    by (simp add: File_new_def)
  moreover have "ex_cache_new\<lparr>m_cache := [(0, ''a'', Some (File_new ''a''))]\<rparr> = ex_cache_new"
    by (simp add: ex_cache_new_def)
  ultimately show ?thesis
    by (subst PrepareWrite_unfold)
       (simp add: memory_available_def ex_cache_new_facts
          PrepareWrite_file_touch [OF ex_cache_new_facts(1,2)])
qed

lemma File_Write_ex_hole:
  "File_Write True (File_new ''a'') 0 2 (\<lambda>i. 0) False = ((True, 2, 0), ex_file_hole)"
  by (simp add: File_Write_def File_new_def new_page_def pages_on_disk_def pages_cached_def
        page_in_memory_def page_size_def upt_rec ex_file_hole_def)

lemma Write_hole_ex:
  "Write ex_cache_new ex_disk ''a'' 0 2 (Some (\<lambda>i. 0)) None False
     = Some (True, ex_cache_new\<lparr>m_cache := [(0, ''a'', Some ex_file_hole)], m_size := 2\<rparr>, None)"
proof -
  have "d_allocOk ex_disk" by (simp add: ex_disk_def)
  moreover have "set_file 0 ex_file_hole (m_cache ex_cache_new) = [(0, ''a'', Some ex_file_hole)]"
    by (simp add: ex_cache_new_def)
  ultimately show ?thesis
    by (simp add: Write_def write_valid_def PrepareWrite_ex_new ex_cache_new_facts
          File_Write_ex_hole update_meta_def)
qed

lemma ex_file_hole_facts:
  "File_GetSize (File_new ''a'') = 0" "File_GetCachedSize (File_new ''a'') = 0"
  "File_IsOpen (File_new ''a'') = False"
  "File_GetCachedSize ex_file_hole = 2" "File_GetSize ex_file_hole = 2"
  by (simp_all add: File_GetSize_def File_GetCachedSize_def File_IsOpen_def File_new_def
        pages_size_def pages_cached_def page_in_memory_def page_size_def page_end_def
        ex_file_hole_def)

lemma Resize_hole_not_allocated:
  "Resize 1 (Cache_new 10) ex_disk ''a'' 2 None = Some (Throws bad_alloc ex_cache_new)"
  "Resize 1024 (Cache_new 10) ex_disk ''a'' (2 ^ 63) None
     = Some (Throws length_error ex_cache_new)"
proof -
  have "m_map (Cache_new 10) ''a'' = None" by (simp add: Cache_new_def)
  then show "Resize 1 (Cache_new 10) ex_disk ''a'' 2 None = Some (Throws bad_alloc ex_cache_new)"
    "Resize 1024 (Cache_new 10) ex_disk ''a'' (2 ^ 63) None
       = Some (Throws length_error ex_cache_new)"
    by (simp_all add: Resize_def vector_char_def new_a ex_cache_new_facts ex_file_hole_facts)
qed

text \<open>C1 fails in the code: \<open>Resize\<close> that grows a File counts the hole twice, once in
  \<open>Write\<close> and once more on return from it.  On an empty cache of capacity 10, with a
  heap that can give the hole, \<open>Resize("a", 2)\<close> leaves one File with two cached bytes
  and a size counter of 4.\<close>

theorem Resize_grow_counts_hole_twice:
  "\<exists>c' t'. Resize 1024 (Cache_new 10) ex_disk ''a'' 2 None = Some (Returns c' t') \<and>
      m_cache c' = [(0, ''a'', Some ex_file_hole)] \<and>
      cached_total c' = 2 \<and> m_size c' = 4"
proof -
  have "m_map (Cache_new 10) ''a'' = None" by (simp add: Cache_new_def)
  moreover have "file_at (ex_cache_new\<lparr>m_cache := [(0, ''a'', Some ex_file_hole)],
                     m_size := 2\<rparr>) 0 = Some ex_file_hole"
    by (simp add: file_at_def node_at_def)
  ultimately show ?thesis
    by (simp add: Resize_def vector_char_def new_a ex_cache_new_facts ex_file_hole_facts
          Write_hole_ex cached_total_def node_cached_def)
qed

end
